theory Spec2Isabelle
  imports Complex_Main "HOL-Library.Multiset"
begin

section \<open>Strings\<close>

text \<open>
  A JavaScript string is a sequence of UTF-16 code units. \<open>ascii\<close> writes one down from
  an ASCII literal. Ids and the fixed messages of the responses stay plain strings.
\<close>

type_synonym jsstring = "nat list"

definition ascii :: "string \<Rightarrow> jsstring" where
  "ascii s = map of_char s"

text \<open>
  \<open>String.prototype.trim\<close> strips white space and line terminators from both ends: TAB,
  LF, VT, FF, CR, SPACE, NO-BREAK SPACE, OGHAM SPACE MARK, EN QUAD .. HAIR SPACE, LINE
  SEPARATOR, PARAGRAPH SEPARATOR, NARROW NO-BREAK SPACE, MEDIUM MATHEMATICAL SPACE,
  IDEOGRAPHIC SPACE and ZERO WIDTH NO-BREAK SPACE.
\<close>

definition isWhiteSpace :: "nat \<Rightarrow> bool" where
  "isWhiteSpace c =
     (c = 0x09 \<or> c = 0x0A \<or> c = 0x0B \<or> c = 0x0C \<or> c = 0x0D \<or> c = 0x20 \<or> c = 0xA0
      \<or> c = 0x1680 \<or> (0x2000 \<le> c \<and> c \<le> 0x200A) \<or> c = 0x2028 \<or> c = 0x2029
      \<or> c = 0x202F \<or> c = 0x205F \<or> c = 0x3000 \<or> c = 0xFEFF)"

definition trim :: "jsstring \<Rightarrow> jsstring" where
  "trim s = rev (dropWhile isWhiteSpace (rev (dropWhile isWhiteSpace s)))"

text \<open>Case folding of the ASCII letters \<open>A\<close>..\<open>Z\<close>.\<close>

definition fold_ascii :: "nat \<Rightarrow> nat" where
  "fold_ascii c = (if 65 \<le> c \<and> c \<le> 90 then c + 32 else c)"

text \<open>
  \<open>String.prototype.toLowerCase\<close>. On a string of ASCII code units it folds \<open>A\<close>..\<open>Z\<close>.
  For any other string it applies the Unicode default case conversion, whose tables are
  not part of the repository: that conversion is the parameter \<open>U\<close>.
\<close>

definition toLowerCase :: "(jsstring \<Rightarrow> jsstring) \<Rightarrow> jsstring \<Rightarrow> jsstring" where
  "toLowerCase U s = (if list_all (\<lambda>c. c < 128) s then map fold_ascii s else U s)"




section \<open>JSON values and request bodies\<close>

datatype json =
    JNull
  | JBool bool
  | JNum rat
  | JStr jsstring
  | JArr "json list"
  | JObj "(jsstring \<times> json) list"

text \<open>JavaScript's \<open>!v\<close> and \<open>typeof v !== 'string'\<close> on a parsed JSON value;
  \<open>None\<close> is \<open>undefined\<close> (the property is absent).\<close>

fun falsy :: "json option \<Rightarrow> bool" where
  "falsy None = True"
| "falsy (Some JNull) = True"
| "falsy (Some (JBool b)) = (\<not> b)"
| "falsy (Some (JNum n)) = (n = 0)"
| "falsy (Some (JStr s)) = (s = [])"
| "falsy (Some (JArr xs)) = False"
| "falsy (Some (JObj kvs)) = False"

fun asString :: "json option \<Rightarrow> jsstring option" where
  "asString (Some (JStr s)) = Some s"
| "asString _ = None"

text \<open>
  \<open>TodoCreateBody\<close> and \<open>TodoUpdateBody\<close>. The handlers test \<open>todo\<close> at run time, so it is
  any JSON value or absent; \<open>isCompleted\<close> is never inspected and is taken at its declared
  type \<open>boolean | undefined\<close>. Fields of different interfaces that share a name in the
  source carry the interface as a prefix here.
\<close>

record TodoCreateBody =
  create_todo :: "json option"
  create_isCompleted :: "bool option"

record TodoUpdateBody =
  update_todo :: "json option"
  update_isCompleted :: "bool option"

record TodoUpdateData =
  set_todo :: "jsstring option"
  set_is_completed :: "bool option"

section \<open>Rows, API records and responses\<close>

type_synonym timestamp = nat

text \<open>\<open>SupabaseTodo\<close> (the storage naming convention). \<open>created_at\<close> is the column's
  point in time, which is what the store orders by.\<close>

record SupabaseTodo =
  db_id :: string
  db_todo :: jsstring
  is_completed :: bool
  created_at :: timestamp

text \<open>\<open>TodoResponse\<close> / \<open>Todo\<close> (the API naming convention).\<close>

record Todo =
  id' :: string
  todo' :: jsstring
  isCompleted :: bool
  createdAt :: timestamp

datatype payload =
    ErrorJson string
  | TodosJson "Todo list"
  | TodoJson Todo
  | SuccessJson

record response =
  status :: nat
  body :: payload

definition json_response :: "payload \<Rightarrow> nat \<Rightarrow> response" where
  "json_response p st = \<lparr>status = st, body = p\<rparr>"

text \<open>The field-name translation both handlers write out.\<close>

definition transform :: "SupabaseTodo \<Rightarrow> Todo" where
  "transform r = \<lparr>id' = db_id r, todo' = db_todo r,
                  isCompleted = is_completed r, createdAt = created_at r\<rparr>"

section \<open>The store\<close>

text \<open>
  The handlers reach the \<open>todos\<close> table of the managed store through the query builder of
  its client library. The table is a list of rows, and each query the handlers build is a
  function on it that returns the library's \<open>{data, error}\<close> as a sum. The id and the
  creation time of a new row are the store's choice and are passed in.
\<close>

record store =
  rows :: "SupabaseTodo list"

datatype PostgrestError = PostgrestError (code: string)

text \<open>
  The store's \<open>lower()\<close>, which its \<open>ILIKE\<close> and the uniqueness constraint apply. It
  folds the ASCII letters; what it does to a code unit outside ASCII is decided by the
  database's collation, which is not part of the repository and is the parameter \<open>C\<close>.
  A letter's lower-case form is never one of the pattern characters \<open>%\<close>, \<open>_\<close> and
  backslash.
\<close>

type_synonym collation = "nat \<Rightarrow> nat"

abbreviation PERCENT :: nat where "PERCENT \<equiv> 37"
abbreviation UNDERSCORE :: nat where "UNDERSCORE \<equiv> 95"
abbreviation BACKSLASH :: nat where "BACKSLASH \<equiv> 92"
abbreviation STAR :: nat where "STAR \<equiv> 42"

definition lower_unit :: "collation \<Rightarrow> nat \<Rightarrow> nat" where
  "lower_unit C c =
     (if c < 128 then fold_ascii c
      else if C c = PERCENT \<or> C c = UNDERSCORE \<or> C c = BACKSLASH then c
      else C c)"

definition lower :: "collation \<Rightarrow> jsstring \<Rightarrow> jsstring" where
  "lower C s = map (lower_unit C) s"

text \<open>
  Modelled from the spec: the uniqueness constraint of the \<open>todos\<close> table, whose
  declaration is not part of the repository. It is the spec's invariant "no two todos have
  the same trimmed text under case-insensitive comparison": two texts collide when their
  \<open>text_key\<close>s are equal. The store checks it whenever a row's text is written and
  reports a violation as SQLSTATE \<open>23505\<close>.
\<close>

definition text_key :: "collation \<Rightarrow> jsstring \<Rightarrow> jsstring" where
  "text_key C t = lower C (trim t)"

text \<open>\<open>insert([{todo, is_completed}]).select()\<close>.\<close>

definition insert_row :: "collation \<Rightarrow> store \<Rightarrow> string \<times> timestamp \<Rightarrow> jsstring \<Rightarrow> bool
    \<Rightarrow> PostgrestError + (SupabaseTodo list \<times> store)" where
  "insert_row C s fresh t c =
     (if filter (\<lambda>r. text_key C (db_todo r) = text_key C t) (rows s) \<noteq> []
      then Inl (PostgrestError ''23505'')
      else let r = \<lparr>db_id = fst fresh, db_todo = t, is_completed = c, created_at = snd fresh\<rparr>
           in Inr ([r], s\<lparr>rows := rows s @ [r]\<rparr>))"

text \<open>
  \<open>select('*').order('created_at', {ascending: false})\<close>. The store leaves the order of
  rows with equal \<open>created_at\<close> open; \<open>tie\<close> stands for whatever decides it in one
  execution of the query (rows that agree on it too come in table order).
\<close>

definition select_ordered :: "(SupabaseTodo \<Rightarrow> nat) \<Rightarrow> store \<Rightarrow> PostgrestError + SupabaseTodo list" where
  "select_ordered tie s = Inr (rev (sort_key created_at (sort_key tie (rows s))))"

text \<open>
  The store's \<open>LIKE\<close> matcher, as the database engine runs it on the lowered text and
  pattern. \<open>%\<close> stands for any sequence of characters, \<open>_\<close> for one character (a
  surrogate pair is one character), and a backslash makes the next pattern unit literal.
  The matcher answers \<open>LIKE_ABORT\<close> when the text ran out, so that no later starting
  point can match either, and raises "LIKE pattern must not end with escape character"
  (\<open>LIKE_ERROR\<close>) only when matching arrives at a backslash that ends the pattern.
\<close>

datatype like_result = LIKE_TRUE | LIKE_FALSE | LIKE_ABORT | LIKE_ERROR

fun NextChar :: "jsstring \<Rightarrow> jsstring" where
  "NextChar [] = []"
| "NextChar [c] = []"
| "NextChar (c # d # t) =
     (if 0xD800 \<le> c \<and> c \<le> 0xDBFF \<and> 0xDC00 \<le> d \<and> d \<le> 0xDFFF then t else d # t)"

text \<open>After a \<open>%\<close>: skip the wildcards that follow it, one character of text for each
  \<open>_\<close>; \<open>None\<close> when the text runs out.\<close>

fun skip_wildcards :: "jsstring \<Rightarrow> jsstring \<Rightarrow> (jsstring \<times> jsstring) option" where
  "skip_wildcards t [] = Some (t, [])"
| "skip_wildcards t (c # p) =
     (if c = PERCENT then skip_wildcards t p
      else if c = UNDERSCORE then (if t = [] then None else skip_wildcards (NextChar t) p)
      else Some (t, c # p))"

function MatchText :: "jsstring \<Rightarrow> jsstring \<Rightarrow> like_result"
  and MatchFrom :: "nat \<Rightarrow> jsstring \<Rightarrow> jsstring \<Rightarrow> like_result" where
  "MatchText [] p = (if list_all (\<lambda>c. c = PERCENT) p then LIKE_TRUE else LIKE_ABORT)"
| "MatchText (x # t) [] = LIKE_FALSE"
| "MatchText (x # t) (c # p) =
     (if c = BACKSLASH then
        (case p of
           [] \<Rightarrow> LIKE_ERROR
         | e # p' \<Rightarrow> if e \<noteq> x then LIKE_FALSE else MatchText t p')
      else if c = PERCENT then
        (case skip_wildcards (x # t) p of
           None \<Rightarrow> LIKE_ABORT
         | Some (t1, p1) \<Rightarrow>
             if p1 = [] then LIKE_TRUE
             else if p1 = [BACKSLASH] then LIKE_ERROR
             else MatchFrom (if hd p1 = BACKSLASH then hd (tl p1) else hd p1) t1 p1)
      else if c = UNDERSCORE then MatchText (NextChar (x # t)) p
      else if c \<noteq> x then LIKE_FALSE
      else MatchText t p)"
| "MatchFrom firstpat [] p = LIKE_ABORT"
| "MatchFrom firstpat (y # ys) p =
     (if y = firstpat then
        (case MatchText (y # ys) p of
           LIKE_FALSE \<Rightarrow> MatchFrom firstpat (NextChar (y # ys)) p
         | matched \<Rightarrow> matched)
      else MatchFrom firstpat (NextChar (y # ys)) p)"
  by pat_completeness auto
termination
proof -
  have sw: "length p1 \<le> length p" if "skip_wildcards t p = Some (t1, p1)"
    for t p t1 p1
    using that by (induction t p rule: skip_wildcards.induct) (auto split: if_splits)
  have nc: "length (NextChar (y # ys)) < Suc (length ys)" for y ys
    by (cases ys) auto
  show ?thesis
    by (relation "measures
         [(\<lambda>a. case a of Inl (t, p) \<Rightarrow> length p | Inr (f, t, p) \<Rightarrow> length p),
          (\<lambda>a. case a of Inl (t, p) \<Rightarrow> 0 | Inr (f, t, p) \<Rightarrow> 1),
          (\<lambda>a. case a of Inl (t, p) \<Rightarrow> length t | Inr (f, t, p) \<Rightarrow> length t)]")
       (auto dest: sw simp: nc)
qed

text \<open>A pattern that ends in a backslash which is not itself escaped.\<close>

fun dangling_escape :: "jsstring \<Rightarrow> bool" where
  "dangling_escape [] = False"
| "dangling_escape [c] = (c = BACKSLASH)"
| "dangling_escape (c # d # p) = (if c = BACKSLASH then dangling_escape p else dangling_escape (d # p))"

text \<open>
  \<open>ilike\<close> is the store's \<open>ILIKE\<close> operator: text and pattern are lowered, then
  matched. The request layer reads \<open>*\<close> in the pattern as \<open>%\<close>.
\<close>

definition star_alias :: "jsstring \<Rightarrow> jsstring" where
  "star_alias p = map (\<lambda>c. if c = STAR then PERCENT else c) p"

definition ilike :: "collation \<Rightarrow> jsstring \<Rightarrow> jsstring \<Rightarrow> like_result" where
  "ilike C t p = MatchText (lower C t) (lower C (star_alias p))"

text \<open>
  \<open>select('todo').ilike('todo', pattern).neq('id', id)\<close>. The conditions are tested in
  the order the query gives them, the pattern first; a row on which the matcher raises
  fails the query.
\<close>

definition select_ilike_neq :: "collation \<Rightarrow> store \<Rightarrow> jsstring \<Rightarrow> string
    \<Rightarrow> PostgrestError + jsstring list" where
  "select_ilike_neq C s pattern i =
     (if filter (\<lambda>r. ilike C (db_todo r) pattern = LIKE_ERROR) (rows s) \<noteq> []
      then Inl (PostgrestError ''22025'')
      else Inr (map db_todo
                 (filter (\<lambda>r. ilike C (db_todo r) pattern = LIKE_TRUE \<and> db_id r \<noteq> i) (rows s))))"

text \<open>
  \<open>update(updates).eq('id', id).select()\<close>. An update that sets no column touches no row
  and returns none. Writing a text that another row already holds (under the constraint's
  comparison) is rejected.
\<close>

definition apply_updates :: "TodoUpdateData \<Rightarrow> SupabaseTodo \<Rightarrow> SupabaseTodo" where
  "apply_updates u r =
     (let r1 = (case set_todo u of None \<Rightarrow> r | Some t \<Rightarrow> r\<lparr>db_todo := t\<rparr>)
      in (case set_is_completed u of None \<Rightarrow> r1 | Some c \<Rightarrow> r1\<lparr>is_completed := c\<rparr>))"

definition update_violates :: "collation \<Rightarrow> store \<Rightarrow> string \<Rightarrow> TodoUpdateData \<Rightarrow> bool" where
  "update_violates C s i u =
     (case set_todo u of
        None \<Rightarrow> False
      | Some t \<Rightarrow> filter (\<lambda>r. db_id r = i) (rows s) \<noteq> []
                 \<and> filter (\<lambda>r. db_id r \<noteq> i \<and> text_key C (db_todo r) = text_key C t) (rows s) \<noteq> [])"

definition update_rows :: "collation \<Rightarrow> store \<Rightarrow> string \<Rightarrow> TodoUpdateData
    \<Rightarrow> PostgrestError + (SupabaseTodo list \<times> store)" where
  "update_rows C s i u =
     (if set_todo u = None \<and> set_is_completed u = None then Inr ([], s)
      else if update_violates C s i u then Inl (PostgrestError ''23505'')
      else Inr (map (apply_updates u) (filter (\<lambda>r. db_id r = i) (rows s)),
                s\<lparr>rows := map (\<lambda>r. if db_id r = i then apply_updates u r else r) (rows s)\<rparr>))"

text \<open>\<open>delete().eq('id', id)\<close>: no error whether or not a row matches.\<close>

definition delete_rows :: "store \<Rightarrow> string \<Rightarrow> PostgrestError + store" where
  "delete_rows s i = Inr (s\<lparr>rows := filter (\<lambda>r. db_id r \<noteq> i) (rows s)\<rparr>)"

section \<open>The handlers\<close>

text \<open>
  Each handler takes the store and returns the response with the store afterwards; the
  parameters before the store are what the store's queries depend on besides the table
  (its collation, the order it gives to ties). A request body of \<open>None\<close> is one on which
  \<open>request.json()\<close> or the destructuring throws; every \<open>throw\<close> ends in the handler's
  \<open>catch\<close>, which answers 500.
\<close>

definition GET :: "(SupabaseTodo \<Rightarrow> nat) \<Rightarrow> store \<Rightarrow> response \<times> store" where
  "GET tie s =
     (case select_ordered tie s of
        Inl e \<Rightarrow> (json_response (ErrorJson ''Failed to fetch todos'') 500, s)
      | Inr data \<Rightarrow> (json_response (TodosJson (map transform data)) 200, s))"

definition POST :: "collation \<Rightarrow> store \<Rightarrow> string \<times> timestamp \<Rightarrow> TodoCreateBody option
    \<Rightarrow> response \<times> store" where
  "POST C s fresh request =
     (case request of
        None \<Rightarrow> (json_response (ErrorJson ''Failed to create todo'') 500, s)
      | Some b \<Rightarrow>
          (let todo = create_todo b;
               isCompleted = (case create_isCompleted b of None \<Rightarrow> False | Some c \<Rightarrow> c)
           in case (if falsy todo then None else asString todo) of
                None \<Rightarrow> (json_response (ErrorJson ''Todo text is required'') 400, s)
              | Some t \<Rightarrow>
                  if trim t = [] then (json_response (ErrorJson ''Todo text is required'') 400, s)
                  else
                    (case insert_row C s fresh (trim t) isCompleted of
                       Inl e \<Rightarrow>
                         if code e = ''23505''
                         then (json_response (ErrorJson ''Duplicate todo item'') 409, s)
                         else (json_response (ErrorJson ''Failed to create todo'') 500, s)
                     | Inr (data, s') \<Rightarrow>
                         (case data of
                            [] \<Rightarrow> (json_response (ErrorJson ''Failed to create todo'') 500, s')
                          | newTodo # _ \<Rightarrow>
                              (json_response (TodoJson (transform newTodo)) 201, s')))))"

text \<open>The second half of \<open>PUT\<close>: the update itself and the answer built from its result.\<close>

definition respond_update :: "store \<Rightarrow> PostgrestError + (SupabaseTodo list \<times> store)
    \<Rightarrow> response \<times> store" where
  "respond_update s res =
     (case res of
        Inl e \<Rightarrow> (json_response (ErrorJson ''Failed to update todo'') 500, s)
      | Inr (data, s') \<Rightarrow>
          (case data of
             [] \<Rightarrow> (json_response (ErrorJson ''Todo not found'') 404, s')
           | updatedTodo # _ \<Rightarrow> (json_response (TodoJson (transform updatedTodo)) 200, s')))"

definition PUT :: "collation \<Rightarrow> store \<Rightarrow> string \<Rightarrow> TodoUpdateBody option \<Rightarrow> response \<times> store" where
  "PUT C s i request =
     (if i = [] then (json_response (ErrorJson ''Todo ID is required'') 400, s)
      else case request of
        None \<Rightarrow> (json_response (ErrorJson ''Failed to update todo'') 500, s)
      | Some b \<Rightarrow>
          (case update_todo b of
             None \<Rightarrow>
               respond_update s
                 (update_rows C s i \<lparr>set_todo = None, set_is_completed = update_isCompleted b\<rparr>)
           | Some v \<Rightarrow>
               (case asString (Some v) of
                  None \<Rightarrow> (json_response (ErrorJson ''Todo text cannot be empty'') 400, s)
                | Some t \<Rightarrow>
                    if trim t = []
                    then (json_response (ErrorJson ''Todo text cannot be empty'') 400, s)
                    else
                      (case select_ilike_neq C s (trim t) i of
                         Inl e \<Rightarrow> (json_response (ErrorJson ''Failed to update todo'') 500, s)
                       | Inr existingTodos \<Rightarrow>
                           if length existingTodos > 0
                           then (json_response (ErrorJson ''Duplicate todo item'') 409, s)
                           else
                             respond_update s
                               (update_rows C s i
                                  \<lparr>set_todo = Some (trim t),
                                   set_is_completed = update_isCompleted b\<rparr>)))))"

definition DELETE :: "store \<Rightarrow> string \<Rightarrow> response \<times> store" where
  "DELETE s i =
     (if i = [] then (json_response (ErrorJson ''Todo ID is required'') 400, s)
      else case delete_rows s i of
        Inl e \<Rightarrow> (json_response (ErrorJson ''Failed to delete todo'') 500, s)
      | Inr s' \<Rightarrow> (json_response SuccessJson 200, s'))"

section \<open>The client view\<close>

record client =
  todos :: "Todo list"
  inputValue :: jsstring
  editingId :: "string option"
  hoveredId :: "string option"
  filterText :: jsstring
  error :: "string option"
  loading :: bool

definition ok :: "response \<Rightarrow> bool" where
  "ok r = (200 \<le> status r \<and> status r \<le> 299)"

text \<open>
  \<open>createTodo\<close>, given what \<open>fetch\<close> produced (\<open>None\<close>: it threw). The banner's timed
  dismissal is outside the model; only the banner being set is recorded.
\<close>

definition createTodo :: "client \<Rightarrow> response option \<Rightarrow> bool \<times> client" where
  "createTodo c fetched =
     (case fetched of
        None \<Rightarrow> (False, c\<lparr>error := Some ''Failed to create todo''\<rparr>)
      | Some r \<Rightarrow>
          if status r = 409 then
            (False, c\<lparr>error := (case body r of ErrorJson m \<Rightarrow> Some m | _ \<Rightarrow> None)\<rparr>)
          else if ok r then
            (case body r of
               TodoJson t \<Rightarrow> (True, c\<lparr>todos := t # todos c\<rparr>)
             | _ \<Rightarrow> (True, c))
          else (False, c))"


section \<open>A text for every pattern\<close>

text \<open>
  \<open>like_sample p\<close> reads a text off a pattern: an escaped unit stands for itself,
  \<open>%\<close> for nothing, \<open>_\<close> for the letter \<open>x\<close>, any other unit for itself.
\<close>

fun like_sample :: "jsstring \<Rightarrow> jsstring" where
  "like_sample [] = []"
| "like_sample (c # p) =
     (if c = BACKSLASH then (case p of [] \<Rightarrow> [] | e # p' \<Rightarrow> e # like_sample p')
      else if c = PERCENT then like_sample p
      else if c = UNDERSCORE then 120 # like_sample p
      else c # like_sample p)"

section \<open>The data model's invariants\<close>

text \<open>
  The spec's invariants on the table: no text is empty or white space only, no two rows
  have the same trimmed text under case-insensitive comparison, and ids are unique.
\<close>

definition store_ok :: "collation \<Rightarrow> store \<Rightarrow> bool" where
  "store_ok C s =
     (filter (\<lambda>r. trim (db_todo r) = []) (rows s) = []
      \<and> distinct (map (\<lambda>r. text_key C (db_todo r)) (rows s))
      \<and> distinct (map db_id (rows s)))"

section \<open>Auxiliary facts\<close>

subsection \<open>Strings\<close>

lemma trim_trim: "trim (trim s) = trim s"
  unfolding trim_def
  by (metis (no_types, lifting) ext dropWhile_eq_Nil_conv
    dropWhile_eq_self_iff dropWhile_last hd_dropWhile hd_rev rev_is_Nil_conv
    rev_swap)

lemma lower_Nil [simp]: "(lower C s = []) = (s = [])"
  by (simp add: lower_def)

lemma text_key_trim: "text_key C (trim t) = text_key C t"
  by (simp add: text_key_def trim_trim)




subsection \<open>The list query\<close>

lemma sorted_desc_order: "sorted_wrt (\<ge>) (map created_at (rev (sort_key created_at xs)))"
proof -
  have "sorted (map created_at (sort_key created_at xs))" by simp
  then have "sorted_wrt (\<ge>) (rev (map created_at (sort_key created_at xs)))"
    by (simp add: sorted_wrt_rev)
  then show ?thesis by (simp add: rev_map)
qed

lemma GET_eq:
  "GET tie s = (json_response (TodosJson (map transform (rev (sort_key created_at (sort_key tie (rows s)))))) 200, s)"
  by (simp add: GET_def select_ordered_def)

lemma createdAt_transform: "map createdAt (map transform xs) = map created_at xs"
  by (simp add: transform_def)

subsection \<open>The update's answer\<close>

lemma respond_update_not_400: "status (fst (respond_update s res)) \<noteq> 400"
  by (auto simp: respond_update_def json_response_def split: sum.splits list.splits prod.splits)

lemma map_if_no_match:
  "filter (\<lambda>r. db_id r = i) xs = [] \<Longrightarrow> map (\<lambda>r. if db_id r = i then f r else r) xs = xs"
  by (induction xs) (auto split: if_splits)

lemma update_rows_unknown_id:
  assumes "filter (\<lambda>r. db_id r = i) (rows s) = []"
  shows "update_rows C s i u = Inr ([], s)"
  using assms by (simp add: update_rows_def update_violates_def map_if_no_match split: option.splits)

subsection \<open>Frame of an update\<close>

lemma insort_key_map_frame:
  "(\<And>y. k (f y) = k y) \<Longrightarrow> insort_key k (f x) (map f xs) = map f (insort_key k x xs)"
  by (induction xs) auto

lemma sort_key_map_frame:
  "(\<And>y. k (f y) = k y) \<Longrightarrow> sort_key k (map f xs) = map f (sort_key k xs)"
  by (induction xs) (simp_all add: insort_key_map_frame)

lemma update_rows_completed_only:
  "update_rows C s i \<lparr>set_todo = None, set_is_completed = Some b\<rparr>
     = Inr (map (\<lambda>r. r\<lparr>is_completed := b\<rparr>) (filter (\<lambda>r. db_id r = i) (rows s)),
            s\<lparr>rows := map (\<lambda>r. if db_id r = i then r\<lparr>is_completed := b\<rparr> else r) (rows s)\<rparr>)"
  by (simp add: update_rows_def update_violates_def apply_updates_def)

lemma PUT_completed_only:
  "i \<noteq> [] \<Longrightarrow>
     PUT C s i (Some \<lparr>update_todo = None, update_isCompleted = Some b\<rparr>)
       = respond_update s
           (Inr (map (\<lambda>r. r\<lparr>is_completed := b\<rparr>) (filter (\<lambda>r. db_id r = i) (rows s)),
                 s\<lparr>rows := map (\<lambda>r. if db_id r = i then r\<lparr>is_completed := b\<rparr> else r) (rows s)\<rparr>))"
  by (simp add: PUT_def update_rows_completed_only)

lemma snd_respond_update: "snd (respond_update s (Inr (data, s'))) = s'"
  by (simp add: respond_update_def split: list.splits)

lemma snd_PUT_completed_only:
  "snd (PUT C s i (Some \<lparr>update_todo = None, update_isCompleted = Some b\<rparr>))
     = (if i = [] then s
        else s\<lparr>rows := map (\<lambda>r. if db_id r = i then r\<lparr>is_completed := b\<rparr> else r) (rows s)\<rparr>)"
proof (cases "i = []")
  case True
  then show ?thesis by (simp add: PUT_def)
next
  case False
  then show ?thesis by (simp add: PUT_completed_only snd_respond_update)
qed

lemma snd_PUT_text_only:
  "snd (PUT C s i (Some \<lparr>update_todo = Some v, update_isCompleted = None\<rparr>)) = s
   \<or> (\<exists>t. v = JStr t \<and> trim t \<noteq> [] \<and>
        snd (PUT C s i (Some \<lparr>update_todo = Some v, update_isCompleted = None\<rparr>))
          = s\<lparr>rows := map (\<lambda>r. if db_id r = i then r\<lparr>db_todo := trim t\<rparr> else r) (rows s)\<rparr>)"
proof (cases "i = []")
  case True
  then show ?thesis by (simp add: PUT_def)
next
  case i: False
  show ?thesis
  proof (cases "asString (Some v)")
    case None
    with i show ?thesis by (simp add: PUT_def)
  next
    case (Some t)
    then have v: "v = JStr t" by (cases v) simp_all
    show ?thesis
    proof (cases "trim t = []")
      case True
      with i v show ?thesis by (simp add: PUT_def)
    next
      case t: False
      show ?thesis
      proof (cases "select_ilike_neq C s (trim t) i")
        case (Inl e)
        with i v t show ?thesis by (simp add: PUT_def)
      next
        case (Inr existing)
        show ?thesis
        proof (cases "existing = []")
          case False
          with i v t Inr show ?thesis by (simp add: PUT_def)
        next
          case True
          with i v t Inr have put:
            "PUT C s i (Some \<lparr>update_todo = Some v, update_isCompleted = None\<rparr>)
               = respond_update s
                   (update_rows C s i \<lparr>set_todo = Some (trim t), set_is_completed = None\<rparr>)"
            by (simp add: PUT_def)
          show ?thesis
          proof (cases "update_violates C s i \<lparr>set_todo = Some (trim t), set_is_completed = None\<rparr>")
            case True
            then show ?thesis
              unfolding put by (simp add: update_rows_def respond_update_def)
          next
            case False
            then have "snd (PUT C s i (Some \<lparr>update_todo = Some v, update_isCompleted = None\<rparr>))
                = s\<lparr>rows := map (\<lambda>r. if db_id r = i then r\<lparr>db_todo := trim t\<rparr> else r) (rows s)\<rparr>"
              unfolding put
              by (simp add: update_rows_def apply_updates_def snd_respond_update)
            with v t show ?thesis by blast
          qed
        qed
      qed
    qed
  qed
qed

lemma asString_eq_Some: "asString j = Some t \<longleftrightarrow> j = Some (JStr t)"
  by (cases "(j)" rule: asString.cases) simp_all

lemma status_200_PUT_text_only:
  assumes "status (fst (PUT C s i (Some \<lparr>update_todo = Some v, update_isCompleted = None\<rparr>))) = 200"
  shows "\<exists>t. v = JStr t \<and> trim t \<noteq> [] \<and>
        snd (PUT C s i (Some \<lparr>update_todo = Some v, update_isCompleted = None\<rparr>))
          = s\<lparr>rows := map (\<lambda>r. if db_id r = i then r\<lparr>db_todo := trim t\<rparr> else r) (rows s)\<rparr>"
  using assms
  by (auto simp: PUT_def json_response_def respond_update_def update_rows_def apply_updates_def
                 asString_eq_Some
           split: if_splits option.splits sum.splits list.splits prod.splits)

subsection \<open>The invariants are kept\<close>

lemma filter_key_unique:
  "distinct (map f xs) \<Longrightarrow> x \<in> set xs \<Longrightarrow> length (filter (\<lambda>y. f y = f x) xs) = 1"
proof (induction xs)
  case Nil
  then show ?case by simp
next
  case (Cons a xs)
  show ?case
  proof (cases "x = a")
    case True
    from Cons.prems have "f a \<notin> f ` set xs" by simp
    then have "\<forall>y\<in>set xs. f y \<noteq> f a" by (metis imageI)
    then have "filter (\<lambda>y. f y = f a) xs = []" by (simp add: filter_empty_conv)
    with True show ?thesis by simp
  next
    case False
    with Cons.prems have x: "x \<in> set xs" and d: "distinct (map f xs)" and "f a \<notin> f ` set xs"
      by auto
    then have "f a \<noteq> f x" by auto
    with Cons.IH [OF d x] show ?thesis by simp
  qed
qed

lemma store_ok_delete: "store_ok C s \<Longrightarrow> store_ok C (snd (DELETE s i))"
  by (auto simp: store_ok_def DELETE_def delete_rows_def distinct_map_filter filter_empty_conv)

lemma store_ok_insert:
  assumes "store_ok C s" and "fst fresh \<notin> db_id ` set (rows s)"
  shows "store_ok C (snd (POST C s fresh request))"
proof (cases "snd (POST C s fresh request) = s")
  case True
  with assms show ?thesis by simp
next
  case False
  then obtain b t where req: "request = Some b" and v: "create_todo b = Some (JStr t)"
      and t: "trim t \<noteq> []"
      and free: "filter (\<lambda>r. text_key C (db_todo r) = text_key C (trim t)) (rows s) = []"
      and s': "rows (snd (POST C s fresh request))
          = rows s @ [\<lparr>db_id = fst fresh, db_todo = trim t,
                       is_completed = (case create_isCompleted b of None \<Rightarrow> False | Some c \<Rightarrow> c),
                       created_at = snd fresh\<rparr>]"
    by (auto simp: POST_def insert_row_def Let_def asString_eq_Some
             split: option.splits if_splits)
  from free have "text_key C (trim t) \<notin> (\<lambda>r. text_key C (db_todo r)) ` set (rows s)"
    by (auto simp: filter_empty_conv)
  with assms t show ?thesis
    unfolding store_ok_def s' by (auto simp: trim_trim filter_empty_conv)
qed

lemma keys_update_subset:
  "set (map (\<lambda>r. text_key C (db_todo r)) (map (\<lambda>r. if db_id r = i then r\<lparr>db_todo := u\<rparr> else r) xs))
     \<subseteq> insert (text_key C u) (set (map (\<lambda>r. text_key C (db_todo r)) xs))"
  by (induction xs) auto

lemma distinct_keys_update:
  assumes "distinct (map db_id xs)" and "distinct (map (\<lambda>r. text_key C (db_todo r)) xs)"
    and "\<forall>r\<in>set xs. db_id r \<noteq> i \<longrightarrow> text_key C (db_todo r) \<noteq> text_key C u"
  shows "distinct (map (\<lambda>r. text_key C (db_todo r))
            (map (\<lambda>r. if db_id r = i then r\<lparr>db_todo := u\<rparr> else r) xs))"
  using assms
proof (induction xs)
  case Nil
  then show ?case by simp
next
  case (Cons a xs)
  let ?m = "map (\<lambda>r. if db_id r = i then r\<lparr>db_todo := u\<rparr> else r)"
  have ih: "distinct (map (\<lambda>r. text_key C (db_todo r)) (?m xs))"
    using Cons by simp
  show ?case
  proof (cases "db_id a = i")
    case True
    with Cons.prems have "i \<notin> db_id ` set xs" by simp
    then have noid: "\<forall>r\<in>set xs. db_id r \<noteq> i" by (metis imageI)
    then have "filter (\<lambda>r. db_id r = i) xs = []" by (auto simp: filter_empty_conv)
    then have same: "?m xs = xs" by (rule map_if_no_match)
    from Cons.prems noid
    have "text_key C u \<notin> (\<lambda>r. text_key C (db_todo r)) ` set xs" by auto
    with True Cons.prems same show ?thesis by simp
  next
    case False
    with Cons.prems have ne: "text_key C (db_todo a) \<noteq> text_key C u" by simp
    from Cons.prems have "text_key C (db_todo a) \<notin> set (map (\<lambda>r. text_key C (db_todo r)) xs)"
      by simp
    with ne keys_update_subset [of C i u xs]
    have "text_key C (db_todo a) \<notin> set (map (\<lambda>r. text_key C (db_todo r)) (?m xs))"
      by auto
    with False ih show ?thesis by simp
  qed
qed

lemma db_id_apply_updates: "db_id (apply_updates u r) = db_id r"
  by (simp add: apply_updates_def split: option.splits)

lemma db_todo_apply_updates:
  "db_todo (apply_updates u r) = (case set_todo u of None \<Rightarrow> db_todo r | Some t \<Rightarrow> t)"
  by (simp add: apply_updates_def split: option.splits)

lemma store_ok_texts_ids:
  "map db_todo (rows s') = map db_todo (rows s) \<Longrightarrow> map db_id (rows s') = map db_id (rows s)
     \<Longrightarrow> store_ok C s' = store_ok C s"
proof -
  assume t: "map db_todo (rows s') = map db_todo (rows s)"
    and i: "map db_id (rows s') = map db_id (rows s)"
  have k: "map (\<lambda>r. text_key C (db_todo r)) xs = map (text_key C) (map db_todo xs)"
    for xs :: "SupabaseTodo list"
    by simp
  have b: "(filter (\<lambda>r. trim (db_todo r) = []) xs = []) = (filter (\<lambda>t. trim t = []) (map db_todo xs) = [])"
    for xs :: "SupabaseTodo list"
    by (simp add: filter_empty_conv)
  show ?thesis
    unfolding store_ok_def k b t i ..
qed

lemma ids_update:
  "map db_id (map (\<lambda>r. if db_id r = i then apply_updates u r else r) xs) = map db_id xs"
  by (induction xs) (simp_all add: db_id_apply_updates)

lemma texts_update_None:
  "set_todo u = None \<Longrightarrow>
     map db_todo (map (\<lambda>r. if db_id r = i then apply_updates u r else r) xs) = map db_todo xs"
  by (induction xs) (simp_all add: db_todo_apply_updates)

lemma texts_update_Some:
  "set_todo u = Some t \<Longrightarrow>
     map db_todo (map (\<lambda>r. if db_id r = i then apply_updates u r else r) xs)
       = map db_todo (map (\<lambda>r. if db_id r = i then r\<lparr>db_todo := t\<rparr> else r) xs)"
  by (induction xs) (simp_all add: db_todo_apply_updates)

lemma update_rows_Inr:
  assumes "update_rows C s i u = Inr (data, s')"
  shows "s' = s \<or> (\<not> update_violates C s i u
           \<and> s' = s\<lparr>rows := map (\<lambda>r. if db_id r = i then apply_updates u r else r) (rows s)\<rparr>)"
  using assms by (auto simp: update_rows_def split: if_splits)

lemma store_ok_update_rows:
  assumes ok: "store_ok C s" and res: "update_rows C s i u = Inr (data, s')"
    and nb: "\<forall>t. set_todo u = Some t \<longrightarrow> trim t \<noteq> []"
  shows "store_ok C s'"
proof -
  let ?m = "map (\<lambda>r. if db_id r = i then apply_updates u r else r)"
  from update_rows_Inr [OF res] consider "s' = s"
    | "\<not> update_violates C s i u" "s' = s\<lparr>rows := ?m (rows s)\<rparr>"
    by auto
  then show ?thesis
  proof cases
    case 1
    with ok show ?thesis by simp
  next
    case 2
    then have rows': "rows s' = ?m (rows s)" by simp
    have ids: "map db_id (rows s') = map db_id (rows s)"
      unfolding rows' by (rule ids_update)
    show ?thesis
    proof (cases "set_todo u")
      case None
      then have "map db_todo (rows s') = map db_todo (rows s)"
        unfolding rows' by (rule texts_update_None)
      from store_ok_texts_ids [OF this ids] ok show ?thesis by simp
    next
      case (Some t)
      let ?n = "map (\<lambda>r. if db_id r = i then r\<lparr>db_todo := t\<rparr> else r)"
      let ?s = "s\<lparr>rows := ?n (rows s)\<rparr>"
      have "map db_todo (rows s') = map db_todo (rows ?s)"
        unfolding rows' using texts_update_Some [OF Some] by simp
      moreover have idn: "map db_id (?n xs) = map db_id xs" for xs
        by (induction xs) auto
      then have "map db_id (rows s') = map db_id (rows ?s)"
        unfolding ids by simp
      ultimately have eq: "store_ok C s' = store_ok C ?s" by (rule store_ok_texts_ids)
      from Some nb have t: "trim t \<noteq> []" by simp
      have ok_ids: "distinct (map db_id (?n (rows s)))"
      proof -
        from ok have "distinct (map db_id (rows s))" by (simp add: store_ok_def)
        then show ?thesis unfolding idn .
      qed
      have ok_blank: "filter (\<lambda>r. trim (db_todo r) = []) (?n (rows s)) = []"
      proof -
        have keep: "filter (\<lambda>r. trim (db_todo r) = []) (?n xs) = []"
          if "filter (\<lambda>r. trim (db_todo r) = []) xs = []" for xs
          using that t by (induction xs) (auto split: if_splits)
        from ok have "filter (\<lambda>r. trim (db_todo r) = []) (rows s) = []"
          by (simp add: store_ok_def)
        then show ?thesis by (rule keep)
      qed
      have ok_keys: "distinct (map (\<lambda>r. text_key C (db_todo r)) (?n (rows s)))"
      proof (cases "filter (\<lambda>r. db_id r = i) (rows s) = []")
        case True
        then have "?n (rows s) = rows s" by (rule map_if_no_match)
        with ok show ?thesis by (simp add: store_ok_def)
      next
        case False
        with 2 Some
        have "filter (\<lambda>r. db_id r \<noteq> i \<and> text_key C (db_todo r) = text_key C t) (rows s) = []"
          by (simp add: update_violates_def)
        then have "\<forall>r\<in>set (rows s). db_id r \<noteq> i \<longrightarrow> text_key C (db_todo r) \<noteq> text_key C t"
          by (auto simp: filter_empty_conv)
        moreover from ok have "distinct (map db_id (rows s))"
          and "distinct (map (\<lambda>r. text_key C (db_todo r)) (rows s))"
          by (simp_all add: store_ok_def)
        ultimately show ?thesis by (intro distinct_keys_update)
      qed
      from ok_ids ok_blank ok_keys have "store_ok C ?s" by (simp add: store_ok_def)
      with eq show ?thesis by simp
    qed
  qed
qed

lemma store_ok_respond_update:
  assumes "store_ok C s" and "\<And>data s'. res = Inr (data, s') \<Longrightarrow> store_ok C s'"
  shows "store_ok C (snd (respond_update s res))"
  using assms by (auto simp: respond_update_def split: sum.splits list.splits)

lemma store_ok_update:
  assumes ok: "store_ok C s"
  shows "store_ok C (snd (PUT C s i request))"
proof -
  have step: "store_ok C (snd (respond_update s (update_rows C s i u)))"
    if "\<forall>t. set_todo u = Some t \<longrightarrow> trim t \<noteq> []" for u
    using ok store_ok_update_rows [OF ok _ that] by (rule store_ok_respond_update)
  have a: "store_ok C (snd (respond_update s
      (update_rows C s i \<lparr>set_todo = None, set_is_completed = c\<rparr>)))" for c
    by (rule step) simp
  have b: "store_ok C (snd (respond_update s
      (update_rows C s i \<lparr>set_todo = Some (trim t), set_is_completed = c\<rparr>)))"
    if "trim t \<noteq> []" for t c
    by (rule step) (simp add: trim_trim that)
  show ?thesis
    using ok a b
    by (auto simp: PUT_def asString_eq_Some split: option.splits sum.splits)
qed

subsection \<open>Lowering and the pattern characters\<close>

lemma lower_unit_backslash: "lower_unit C c = BACKSLASH \<longleftrightarrow> c = BACKSLASH"
  by (auto simp: lower_unit_def fold_ascii_def)

lemma lower_unit_percent: "lower_unit C c = PERCENT \<longleftrightarrow> c = PERCENT"
  by (auto simp: lower_unit_def fold_ascii_def)

lemma lower_unit_underscore: "lower_unit C c = UNDERSCORE \<longleftrightarrow> c = UNDERSCORE"
  by (auto simp: lower_unit_def fold_ascii_def)

lemma lower_unit_x: "lower_unit C 120 = 120"
  by (simp add: lower_unit_def fold_ascii_def)

lemma length_lower: "length (lower C s) = length s"
  by (simp add: lower_def)

lemma pattern_unit:
  "lower_unit C (if c = STAR then PERCENT else c) = BACKSLASH \<longleftrightarrow> c = BACKSLASH"
  by (simp add: lower_unit_backslash)

lemma lower_star_alias:
  "lower C (star_alias p) = map (\<lambda>c. lower_unit C (if c = STAR then PERCENT else c)) p"
  by (simp add: lower_def star_alias_def)

subsection \<open>Patterns that end in a lone backslash\<close>

lemma dangling_escape_Cons: "c \<noteq> BACKSLASH \<Longrightarrow> dangling_escape (c # p) = dangling_escape p"
  by (cases p) simp_all

lemma dangling_escape_map:
  assumes "\<And>c. f c = BACKSLASH \<longleftrightarrow> c = BACKSLASH"
  shows "dangling_escape (map f p) = dangling_escape p"
  by (induction p rule: dangling_escape.induct) (simp_all add: assms)

lemma dangling_escape_pattern:
  "dangling_escape (lower C (star_alias p)) = dangling_escape p"
  unfolding lower_star_alias by (rule dangling_escape_map) (rule pattern_unit)

lemma no_backslash_not_dangling: "BACKSLASH \<notin> set p \<Longrightarrow> \<not> dangling_escape p"
  by (induction p rule: dangling_escape.induct) simp_all

lemma skip_wildcards_dangling:
  "skip_wildcards t p = Some (t1, p1) \<Longrightarrow> dangling_escape p1 = dangling_escape p"
  by (induction t p rule: skip_wildcards.induct)
     (auto simp: dangling_escape_Cons split: if_splits)

lemma skip_wildcards_shorter:
  "skip_wildcards t p = Some (t1, p1) \<Longrightarrow> length p1 \<le> length p"
  by (induction t p rule: skip_wildcards.induct) (auto split: if_splits)

subsection \<open>The matcher\<close>

lemma MatchText_percent: "MatchText t [PERCENT] = LIKE_TRUE"
  by (cases t) simp_all

lemma MatchText_percent_backslash: "MatchText t [PERCENT, BACKSLASH] \<noteq> LIKE_TRUE"
  by (cases t) simp_all

lemma MatchText_no_error:
  "\<not> dangling_escape p \<Longrightarrow> MatchText t p \<noteq> LIKE_ERROR"
  "\<not> dangling_escape p \<Longrightarrow> MatchFrom f t p \<noteq> LIKE_ERROR"
proof (induction t p and f t p rule: MatchText_MatchFrom.induct)
  case (1 p)
  then show ?case by simp
next
  case (2 x t)
  then show ?case by simp
next
  case (3 x t c p)
  show ?case
  proof (cases "c = BACKSLASH")
    case True
    show ?thesis
    proof (cases p)
      case Nil
      with True "3.prems" show ?thesis by simp
    next
      case (Cons e p')
      with True "3.prems" have nd: "\<not> dangling_escape p'" by simp
      show ?thesis
      proof (cases "e = x")
        case False
        with True Cons show ?thesis by simp
      next
        case e: True
        from "3.IH"(1) [OF True Cons _ nd] e have "MatchText t p' \<noteq> LIKE_ERROR" by simp
        with True Cons e show ?thesis by simp
      qed
    qed
  next
    case nb: False
    with "3.prems" have nd: "\<not> dangling_escape p" by (simp add: dangling_escape_Cons)
    show ?thesis
    proof (cases "c = PERCENT")
      case True
      show ?thesis
      proof (cases "skip_wildcards (x # t) p")
        case None
        with nb True show ?thesis by simp
      next
        case (Some a)
        obtain t1 p1 where a: "a = (t1, p1)" by (cases a)
        from Some a have sk: "skip_wildcards (x # t) p = Some (t1, p1)" by simp
        from skip_wildcards_dangling [OF sk] nd have nd1: "\<not> dangling_escape p1" by simp
        then have ne: "p1 \<noteq> [BACKSLASH]" by auto
        show ?thesis
        proof (cases "p1 = []")
          case True
          with nb \<open>c = PERCENT\<close> sk show ?thesis by simp
        next
          case False
          from "3.IH"(2) [OF nb True sk refl False ne nd1]
          have "MatchFrom (if hd p1 = BACKSLASH then hd (tl p1) else hd p1) t1 p1 \<noteq> LIKE_ERROR" .
          with nb True sk False ne show ?thesis by simp
        qed
      qed
    next
      case np: False
      show ?thesis
      proof (cases "c = UNDERSCORE")
        case True
        from "3.IH"(3) [OF nb np True nd] nb np True show ?thesis by simp
      next
        case nu: False
        show ?thesis
        proof (cases "c = x")
          case False
          with nb np nu show ?thesis by simp
        next
          case True
          from "3.IH"(4) [OF nb np nu _ nd] True nb np nu show ?thesis by simp
        qed
      qed
    qed
  qed
next
  case (4 f p)
  then show ?case by simp
next
  case (5 f y ys p)
  show ?case
  proof (cases "y = f")
    case False
    from "5.IH"(3) [OF False "5.prems"] False show ?thesis by simp
  next
    case True
    from "5.IH"(1) [OF True "5.prems"] have m: "MatchText (y # ys) p \<noteq> LIKE_ERROR" .
    show ?thesis
    proof (cases "MatchText (y # ys) p = LIKE_FALSE")
      case False
      with True m show ?thesis by (cases "MatchText (y # ys) p") simp_all
    next
      case f: True
      from "5.IH"(2) [OF True f "5.prems"] True f show ?thesis by simp
    qed
  qed
qed

subsection \<open>The sample text of a pattern\<close>

lemma NextChar_x: "NextChar (120 # t) = t"
  by (cases t) simp_all

lemma skip_wildcards_sample:
  "\<exists>p1. skip_wildcards (like_sample p) p = Some (like_sample p1, p1)
        \<and> (p1 = [] \<or> (hd p1 \<noteq> PERCENT \<and> hd p1 \<noteq> UNDERSCORE))"
proof (induction p)
  case Nil
  then show ?case by simp
next
  case (Cons c p)
  show ?case
  proof (cases "c = PERCENT \<or> c = UNDERSCORE")
    case True
    with Cons show ?thesis by (auto simp: NextChar_x)
  next
    case False
    then have "skip_wildcards (like_sample (c # p)) (c # p) = Some (like_sample (c # p), c # p)"
      by simp
    with False show ?thesis by (intro exI [of _ "c # p"]) simp
  qed
qed

lemma like_sample_Nil:
  "\<not> dangling_escape p \<Longrightarrow> like_sample p = [] \<Longrightarrow> list_all (\<lambda>c. c = PERCENT) p"
proof (induction p rule: like_sample.induct)
  case 1
  then show ?case by simp
next
  case (2 c p)
  show ?case
  proof (cases "c = PERCENT")
    case True
    with 2 show ?thesis by (simp add: dangling_escape_Cons)
  next
    case False
    with "2.prems" show ?thesis by (cases p) (auto split: if_splits)
  qed
qed

lemma like_sample_head:
  assumes "p1 \<noteq> []" "p1 \<noteq> [BACKSLASH]" "hd p1 \<noteq> PERCENT" "hd p1 \<noteq> UNDERSCORE"
  shows "\<exists>ys. like_sample p1 = (if hd p1 = BACKSLASH then hd (tl p1) else hd p1) # ys"
proof -
  from assms(1) obtain d q where p1: "p1 = d # q" by (cases p1) auto
  show ?thesis
  proof (cases "d = BACKSLASH")
    case True
    with assms(2) p1 obtain e q' where "q = e # q'" by (cases q) auto
    with True p1 show ?thesis by simp
  next
    case False
    with assms p1 show ?thesis by simp
  qed
qed

lemma MatchText_sample: "\<not> dangling_escape p \<Longrightarrow> MatchText (like_sample p) p = LIKE_TRUE"
proof (induction "length p" arbitrary: p rule: less_induct)
  case less
  show ?case
  proof (cases p)
    case Nil
    then show ?thesis by simp
  next
    case (Cons c p')
    consider (esc) "c = BACKSLASH" | (any) "c \<noteq> BACKSLASH" "c = PERCENT"
      | (one) "c \<noteq> BACKSLASH" "c \<noteq> PERCENT" "c = UNDERSCORE"
      | (lit) "c \<noteq> BACKSLASH" "c \<noteq> PERCENT" "c \<noteq> UNDERSCORE"
      by auto
    then show ?thesis
    proof cases
      case esc
      with less.prems Cons obtain e p'' where p': "p' = e # p''" by (cases p') auto
      with esc less.prems Cons have nd: "\<not> dangling_escape p''" by simp
      have "MatchText (like_sample p'') p'' = LIKE_TRUE"
        by (rule less.hyps) (simp_all add: Cons p' nd)
      with esc Cons p' show ?thesis by simp
    next
      case any
      with less.prems Cons have nd: "\<not> dangling_escape p'" by (simp add: dangling_escape_Cons)
      show ?thesis
      proof (cases "like_sample p'")
        case Nil
        from like_sample_Nil [OF nd Nil] have "list_all (\<lambda>c. c = PERCENT) p'" .
        with any Cons Nil show ?thesis by simp
      next
        case (Cons x t)
        from skip_wildcards_sample [of p'] obtain p1
          where sk: "skip_wildcards (like_sample p') p' = Some (like_sample p1, p1)"
            and hd: "p1 = [] \<or> (hd p1 \<noteq> PERCENT \<and> hd p1 \<noteq> UNDERSCORE)"
          by blast
        from skip_wildcards_dangling [OF sk] nd have nd1: "\<not> dangling_escape p1" by simp
        from skip_wildcards_shorter [OF sk] have len: "length p1 < length p"
          using \<open>p = c # p'\<close> by simp
        have m: "MatchText (like_sample p1) p1 = LIKE_TRUE"
          using len nd1 by (rule less.hyps)
        show ?thesis
        proof (cases "p1 = []")
          case True
          with any \<open>p = c # p'\<close> Cons sk show ?thesis by simp
        next
          case False
          from nd1 have ne: "p1 \<noteq> [BACKSLASH]" by auto
          from like_sample_head [OF False ne] hd False obtain ys
            where ys: "like_sample p1 = (if hd p1 = BACKSLASH then hd (tl p1) else hd p1) # ys"
            by blast
          define f where "f = (if hd p1 = BACKSLASH then hd (tl p1) else hd p1)"
          from m ys have "MatchText (f # ys) p1 = LIKE_TRUE" by (simp add: f_def)
          then have "MatchFrom f (f # ys) p1 = LIKE_TRUE" by simp
          with ys have "MatchFrom (if hd p1 = BACKSLASH then hd (tl p1) else hd p1) (like_sample p1) p1
              = LIKE_TRUE"
            by (simp add: f_def)
          with any \<open>p = c # p'\<close> Cons sk False ne show ?thesis by simp
        qed
      qed
    next
      case one
      with less.prems Cons have nd: "\<not> dangling_escape p'" by (simp add: dangling_escape_Cons)
      have "MatchText (like_sample p') p' = LIKE_TRUE"
        by (rule less.hyps) (simp_all add: Cons nd)
      with one Cons show ?thesis by (simp add: NextChar_x)
    next
      case lit
      with less.prems Cons have nd: "\<not> dangling_escape p'" by (simp add: dangling_escape_Cons)
      have "MatchText (like_sample p') p' = LIKE_TRUE"
        by (rule less.hyps) (simp_all add: Cons nd)
      with lit Cons show ?thesis by simp
    qed
  qed
qed

lemma length_like_sample: "length (like_sample p) \<le> length p"
proof (induction p rule: like_sample.induct)
  case 1
  then show ?case by simp
next
  case (2 c p)
  show ?case
  proof (cases "c = BACKSLASH")
    case True
    show ?thesis
    proof (cases p)
      case Nil
      with True show ?thesis by simp
    next
      case (Cons e p')
      from "2.IH"(1) [OF True Cons] True Cons show ?thesis by simp
    qed
  next
    case nb: False
    show ?thesis
    proof (cases "c = PERCENT")
      case True
      from "2.IH"(2) [OF nb True] nb True show ?thesis by simp
    next
      case np: False
      show ?thesis
      proof (cases "c = UNDERSCORE")
        case True
        from "2.IH"(3) [OF nb np True] nb np True show ?thesis by simp
      next
        case nu: False
        from "2.IH"(4) [OF nb np nu] nb np nu show ?thesis by simp
      qed
    qed
  qed
qed

lemma length_like_sample_less:
  "PERCENT \<in> set p \<or> BACKSLASH \<in> set p \<Longrightarrow> length (like_sample p) < length p"
proof (induction p rule: like_sample.induct)
  case 1
  then show ?case by simp
next
  case (2 c p)
  have le: "length (like_sample q) \<le> length q" for q by (rule length_like_sample)
  show ?case
  proof (cases "c = BACKSLASH")
    case True
    show ?thesis
    proof (cases p)
      case Nil
      with True show ?thesis by simp
    next
      case (Cons e p')
      with True le [of p'] show ?thesis by simp
    qed
  next
    case nb: False
    show ?thesis
    proof (cases "c = PERCENT")
      case True
      with nb le [of p] show ?thesis by simp
    next
      case False
      with nb "2.prems" have "PERCENT \<in> set p \<or> BACKSLASH \<in> set p" by auto
      with "2.IH" nb False have "length (like_sample p) < length p" by auto
      with nb False show ?thesis by simp
    qed
  qed
qed

lemma like_sample_underscore:
  "UNDERSCORE \<in> set q \<Longrightarrow> PERCENT \<notin> set q \<Longrightarrow> BACKSLASH \<notin> set q \<Longrightarrow> like_sample q \<noteq> q"
proof (induction q)
  case Nil
  then show ?case by simp
next
  case (Cons c q)
  show ?case
  proof (cases "c = UNDERSCORE")
    case True
    then show ?thesis by simp
  next
    case False
    with Cons.prems have "UNDERSCORE \<in> set q" "PERCENT \<notin> set q" "BACKSLASH \<notin> set q"
      and "c \<noteq> PERCENT" "c \<noteq> BACKSLASH"
      by auto
    with Cons.IH False show ?thesis by simp
  qed
qed

lemma like_sample_map:
  assumes b: "\<And>c. f c = BACKSLASH \<longleftrightarrow> c = BACKSLASH"
    and p: "\<And>c. f c = PERCENT \<longleftrightarrow> c = PERCENT"
    and u: "\<And>c. f c = UNDERSCORE \<longleftrightarrow> c = UNDERSCORE"
    and x: "f 120 = 120"
  shows "like_sample (map f q) = map f (like_sample q)"
proof (induction q rule: like_sample.induct)
  case 1
  then show ?case by simp
next
  case (2 c q)
  show ?case
  proof (cases "c = BACKSLASH")
    case True
    show ?thesis
    proof (cases q)
      case Nil
      with True b show ?thesis by simp
    next
      case (Cons e q')
      from "2.IH"(1) [OF True Cons] have "like_sample (map f q') = map f (like_sample q')" .
      with True Cons b show ?thesis by simp
    qed
  next
    case nb: False
    then have fb: "f c \<noteq> BACKSLASH" by (simp add: b)
    show ?thesis
    proof (cases "c = PERCENT")
      case True
      from "2.IH"(2) [OF nb True] have "like_sample (map f q) = map f (like_sample q)" .
      with nb True fb p show ?thesis by simp
    next
      case np: False
      then have fp: "f c \<noteq> PERCENT" by (simp add: p)
      show ?thesis
      proof (cases "c = UNDERSCORE")
        case True
        from "2.IH"(3) [OF nb np True] have "like_sample (map f q) = map f (like_sample q)" .
        with nb np True fb fp u x show ?thesis by simp
      next
        case nu: False
        then have fu: "f c \<noteq> UNDERSCORE" by (simp add: u)
        from "2.IH"(4) [OF nb np nu] have "like_sample (map f q) = map f (like_sample q)" .
        with nb np nu fb fp fu show ?thesis by simp
      qed
    qed
  qed
qed

lemma like_sample_lower: "like_sample (lower C q) = lower C (like_sample q)"
  unfolding lower_def
  by (rule like_sample_map)
     (simp_all add: lower_unit_backslash lower_unit_percent lower_unit_underscore lower_unit_x)

subsection \<open>The duplicate check of the update\<close>

lemma respond_update_not_409: "status (fst (respond_update s res)) \<noteq> 409"
  by (auto simp: respond_update_def json_response_def split: sum.splits list.splits prod.splits)

lemma ilike_no_error: "\<not> dangling_escape p \<Longrightarrow> ilike C x p \<noteq> LIKE_ERROR"
  unfolding ilike_def by (rule MatchText_no_error) (simp add: dangling_escape_pattern)

lemma select_ilike_neq_valid:
  "\<not> dangling_escape p \<Longrightarrow>
     select_ilike_neq C s p i
       = Inr (map db_todo (filter (\<lambda>r. ilike C (db_todo r) p = LIKE_TRUE \<and> db_id r \<noteq> i) (rows s)))"
  by (simp add: select_ilike_neq_def ilike_no_error)

lemma PUT_check_found:
  assumes "i \<noteq> []" and "trim t \<noteq> []"
    and "select_ilike_neq C s (trim t) i = Inr (x # xs)"
  shows "PUT C s i (Some \<lparr>update_todo = Some (JStr t), update_isCompleted = c\<rparr>)
           = (json_response (ErrorJson ''Duplicate todo item'') 409, s)"
  using assms by (simp add: PUT_def)

lemma PUT_check_not_found:
  assumes "i \<noteq> []" and "trim t \<noteq> []"
    and "select_ilike_neq C s (trim t) i = Inr [] \<or> select_ilike_neq C s (trim t) i = Inl e"
  shows "status (fst (PUT C s i (Some \<lparr>update_todo = Some (JStr t), update_isCompleted = c\<rparr>))) \<noteq> 409"
proof -
  from assms(3) show ?thesis
  proof
    assume "select_ilike_neq C s (trim t) i = Inr []"
    with assms(1,2)
    have "PUT C s i (Some \<lparr>update_todo = Some (JStr t), update_isCompleted = c\<rparr>)
      = respond_update s (update_rows C s i \<lparr>set_todo = Some (trim t), set_is_completed = c\<rparr>)"
      by (simp add: PUT_def)
    then show ?thesis by (simp add: respond_update_not_409)
  next
    assume "select_ilike_neq C s (trim t) i = Inl e"
    with assms(1,2) show ?thesis by (simp add: PUT_def json_response_def)
  qed
qed

lemma PUT_conflict:
  assumes i: "i \<noteq> []" and t: "trim t \<noteq> []" and nd: "\<not> dangling_escape (trim t)"
    and r: "r \<in> set (rows s)" "db_id r \<noteq> i" "ilike C (db_todo r) (trim t) = LIKE_TRUE"
  shows "PUT C s i (Some \<lparr>update_todo = Some (JStr t), update_isCompleted = c\<rparr>)
           = (json_response (ErrorJson ''Duplicate todo item'') 409, s)"
proof -
  let ?hits = "filter (\<lambda>r. ilike C (db_todo r) (trim t) = LIKE_TRUE \<and> db_id r \<noteq> i) (rows s)"
  from r have "r \<in> set ?hits" by simp
  then have "?hits \<noteq> []" by (metis empty_iff list.set(1))
  then obtain h hs where "?hits = h # hs" by (cases ?hits) auto
  with nd have "select_ilike_neq C s (trim t) i = Inr (db_todo h # map db_todo hs)"
    by (simp add: select_ilike_neq_valid)
  with i t show ?thesis by (rule PUT_check_found)
qed

lemma PUT_no_conflict:
  assumes i: "i \<noteq> []" and t: "trim t \<noteq> []" and nd: "\<not> dangling_escape (trim t)"
    and none: "filter (\<lambda>r. ilike C (db_todo r) (trim t) = LIKE_TRUE \<and> db_id r \<noteq> i) (rows s) = []"
  shows "status (fst (PUT C s i (Some \<lparr>update_todo = Some (JStr t), update_isCompleted = c\<rparr>))) \<noteq> 409"
proof -
  from nd none have "select_ilike_neq C s (trim t) i = Inr []"
    by (simp add: select_ilike_neq_valid)
  then have "select_ilike_neq C s (trim t) i = Inr [] \<or> select_ilike_neq C s (trim t) i = Inl undefined"
    by simp
  with i t show ?thesis by (rule PUT_check_not_found)
qed

lemma ilike_sample:
  assumes "\<not> dangling_escape q"
  shows "ilike C (like_sample (star_alias q)) q = LIKE_TRUE"
proof -
  from assms have "\<not> dangling_escape (lower C (star_alias q))"
    by (simp add: dangling_escape_pattern)
  then have "MatchText (like_sample (lower C (star_alias q))) (lower C (star_alias q)) = LIKE_TRUE"
    by (rule MatchText_sample)
  then show ?thesis by (simp add: ilike_def like_sample_lower)
qed

lemma percent_in_pattern:
  "PERCENT \<in> set q \<or> STAR \<in> set q \<Longrightarrow> PERCENT \<in> set (lower C (star_alias q))"
proof -
  assume "PERCENT \<in> set q \<or> STAR \<in> set q"
  then obtain c where c: "c \<in> set q" "c = PERCENT \<or> c = STAR" by auto
  then have "lower_unit C (if c = STAR then PERCENT else c) = PERCENT"
    by (auto simp: lower_unit_percent)
  moreover from c have "lower_unit C (if c = STAR then PERCENT else c)
      \<in> set (map (\<lambda>c. lower_unit C (if c = STAR then PERCENT else c)) q)"
    by (metis (mono_tags, lifting) image_eqI list.set_map)
  ultimately show ?thesis by (simp add: lower_star_alias)
qed

lemma sample_differs:
  assumes "PERCENT \<in> set q \<or> UNDERSCORE \<in> set q"
  shows "lower C (like_sample (star_alias q)) \<noteq> lower C q"
proof -
  let ?P = "lower C (star_alias q)"
  have eq: "lower C (like_sample (star_alias q)) = like_sample ?P"
    by (simp add: like_sample_lower)
  show ?thesis
  proof (cases "PERCENT \<in> set ?P \<or> BACKSLASH \<in> set ?P")
    case True
    then have "length (like_sample ?P) < length ?P" by (rule length_like_sample_less)
    then have "length (like_sample ?P) < length (lower C q)"
      by (simp add: length_lower star_alias_def)
    with eq show ?thesis by auto
  next
    case False
    then have np: "PERCENT \<notin> set ?P" and nb: "BACKSLASH \<notin> set ?P" by auto
    from np percent_in_pattern [of q C] have q: "PERCENT \<notin> set q" "STAR \<notin> set q" by auto
    then have same: "star_alias q = q" by (auto simp: star_alias_def intro: map_idI)
    from q assms have "UNDERSCORE \<in> set q" by simp
    then have "lower_unit C UNDERSCORE \<in> set (lower C q)"
      unfolding lower_def by (metis image_eqI list.set_map)
    moreover have "lower_unit C UNDERSCORE = UNDERSCORE"
      by (simp add: lower_unit_def fold_ascii_def)
    ultimately have "UNDERSCORE \<in> set (lower C q)" by simp
    with np nb have "like_sample (lower C q) \<noteq> lower C q"
      by (intro like_sample_underscore) (simp_all add: same)
    with eq same show ?thesis by simp
  qed
qed

subsection \<open>White space and ASCII case\<close>

lemma trim_Nil_iff: "trim t = [] \<longleftrightarrow> list_all isWhiteSpace t"
proof -
  have "trim t = [] \<longleftrightarrow> dropWhile isWhiteSpace (rev (dropWhile isWhiteSpace t)) = []"
    by (simp only: trim_def rev_is_Nil_conv)
  also have "\<dots> \<longleftrightarrow> (\<forall>x\<in>set (dropWhile isWhiteSpace t). isWhiteSpace x)"
    by (simp only: dropWhile_eq_Nil_conv set_rev)
  also have "\<dots> \<longleftrightarrow> dropWhile isWhiteSpace t = []"
  proof (cases "dropWhile isWhiteSpace t")
    case Nil
    show ?thesis unfolding Nil by simp
  next
    case (Cons x xs)
    then have "\<not> isWhiteSpace x" by (metis hd_dropWhile list.distinct(1) list.sel(1))
    then show ?thesis unfolding Cons by simp
  qed
  also have "\<dots> \<longleftrightarrow> list_all isWhiteSpace t"
    by (simp add: dropWhile_eq_Nil_conv list_all_iff)
  finally show ?thesis .
qed





subsection \<open>Ties in the list query\<close>

lemma sort_distinct_keys:
  assumes "distinct (map created_at xs)"
  shows "sort_key created_at (sort_key tie xs) = sort_key created_at xs"
proof -
  have "mset xs = mset (sort_key created_at (sort_key tie xs))" by simp
  moreover from assms have "inj_on created_at (set xs)" by (simp add: distinct_map)
  moreover have "sorted (map created_at (sort_key created_at (sort_key tie xs)))" by simp
  ultimately show ?thesis by (rule sort_key_inj_key_eq [symmetric])
qed

lemma insort_key_map_frame2:
  "(\<And>y. k' (f y) = k y) \<Longrightarrow> insort_key k' (f x) (map f xs) = map f (insort_key k x xs)"
  by (induction xs) auto

lemma sort_key_map_frame2:
  "(\<And>y. k' (f y) = k y) \<Longrightarrow> sort_key k' (map f xs) = map f (sort_key k xs)"
  by (induction xs) (simp_all add: insort_key_map_frame2)

subsection \<open>Patterns that can never match\<close>

lemma dangling_escape_not_percents:
  "dangling_escape p \<Longrightarrow> \<not> list_all (\<lambda>c. c = PERCENT) p"
  by (induction p rule: dangling_escape.induct) (auto split: if_splits)

lemma MatchText_dangling:
  "dangling_escape p \<Longrightarrow> MatchText t p \<noteq> LIKE_TRUE"
  "dangling_escape p \<Longrightarrow> MatchFrom f t p \<noteq> LIKE_TRUE"
proof (induction t p and f t p rule: MatchText_MatchFrom.induct)
  case (1 p)
  then show ?case by (simp add: dangling_escape_not_percents)
next
  case (2 x t)
  then show ?case by simp
next
  case (3 x t c p)
  show ?case
  proof (cases "c = BACKSLASH")
    case True
    show ?thesis
    proof (cases p)
      case Nil
      with True show ?thesis by simp
    next
      case (Cons e p')
      with True "3.prems" have d: "dangling_escape p'" by simp
      show ?thesis
      proof (cases "e = x")
        case False
        with True Cons show ?thesis by simp
      next
        case e: True
        from "3.IH"(1) [OF True Cons _ d] e have "MatchText t p' \<noteq> LIKE_TRUE" by simp
        with True Cons e show ?thesis by simp
      qed
    qed
  next
    case nb: False
    with "3.prems" have d: "dangling_escape p" by (simp add: dangling_escape_Cons)
    show ?thesis
    proof (cases "c = PERCENT")
      case True
      show ?thesis
      proof (cases "skip_wildcards (x # t) p")
        case None
        with nb True show ?thesis by simp
      next
        case (Some a)
        obtain t1 p1 where a: "a = (t1, p1)" by (cases a)
        from Some a have sk: "skip_wildcards (x # t) p = Some (t1, p1)" by simp
        from skip_wildcards_dangling [OF sk] d have d1: "dangling_escape p1" by simp
        then have ne: "p1 \<noteq> []" by auto
        show ?thesis
        proof (cases "p1 = [BACKSLASH]")
          case True
          with nb \<open>c = PERCENT\<close> sk show ?thesis by simp
        next
          case False
          from "3.IH"(2) [OF nb True sk refl ne False d1]
          have "MatchFrom (if hd p1 = BACKSLASH then hd (tl p1) else hd p1) t1 p1 \<noteq> LIKE_TRUE" .
          with nb True sk False ne show ?thesis by simp
        qed
      qed
    next
      case np: False
      show ?thesis
      proof (cases "c = UNDERSCORE")
        case True
        from "3.IH"(3) [OF nb np True d] nb np True show ?thesis by simp
      next
        case nu: False
        show ?thesis
        proof (cases "c = x")
          case False
          with nb np nu show ?thesis by simp
        next
          case True
          from "3.IH"(4) [OF nb np nu _ d] True nb np nu show ?thesis by simp
        qed
      qed
    qed
  qed
next
  case (4 f p)
  then show ?case by simp
next
  case (5 f y ys p)
  show ?case
  proof (cases "y = f")
    case False
    from "5.IH"(3) [OF False "5.prems"] False show ?thesis by simp
  next
    case True
    from "5.IH"(1) [OF True "5.prems"] have m: "MatchText (y # ys) p \<noteq> LIKE_TRUE" .
    show ?thesis
    proof (cases "MatchText (y # ys) p = LIKE_FALSE")
      case False
      with True m show ?thesis by (cases "MatchText (y # ys) p") simp_all
    next
      case f: True
      from "5.IH"(2) [OF True f "5.prems"] True f show ?thesis by simp
    qed
  qed
qed

lemma ilike_dangling: "dangling_escape p \<Longrightarrow> ilike C x p \<noteq> LIKE_TRUE"
  unfolding ilike_def by (rule MatchText_dangling) (simp add: dangling_escape_pattern)

lemma PUT_dangling:
  assumes d: "dangling_escape (trim t)"
  shows "status (fst (PUT C s i (Some \<lparr>update_todo = Some (JStr t), update_isCompleted = c\<rparr>))) \<noteq> 409"
proof (cases "i = []")
  case True
  then show ?thesis by (simp add: PUT_def json_response_def)
next
  case i: False
  from d have t: "trim t \<noteq> []" by auto
  have "select_ilike_neq C s (trim t) i = Inr []
      \<or> select_ilike_neq C s (trim t) i = Inl (PostgrestError ''22025'')"
    by (simp add: select_ilike_neq_def ilike_dangling [OF d])
  then show ?thesis by (rule PUT_check_not_found [OF i t])
qed

subsection \<open>Unfolding the model on a concrete input\<close>

lemmas eval_defs =
  ascii_def trim_def isWhiteSpace_def fold_ascii_def toLowerCase_def lower_unit_def lower_def
  text_key_def insert_row_def select_ordered_def star_alias_def ilike_def select_ilike_neq_def
  apply_updates_def update_violates_def update_rows_def delete_rows_def GET_def POST_def
  respond_update_def PUT_def DELETE_def json_response_def transform_def Let_def

section \<open>Claims\<close>

text \<open>
  C1. In a store that satisfies the data model's invariants, a create request whose
  trimmed text equals, case-insensitively, the trimmed text of an existing todo is answered
  409 with the message "Duplicate todo item"; the store is unchanged, so exactly one row
  with that text exists afterwards; and the client, on receiving that answer, shows the
  message, reports failure and leaves its todos list as it was.
\<close>

theorem create_duplicate_conflict:
  "store_ok C s \<Longrightarrow> r \<in> set (rows s) \<Longrightarrow>
   lower C (trim t) = lower C (trim (db_todo r)) \<Longrightarrow>
     POST C s fresh (Some \<lparr>create_todo = Some (JStr t), create_isCompleted = c\<rparr>)
       = (json_response (ErrorJson ''Duplicate todo item'') 409, s)
     \<and> length (filter (\<lambda>x. lower C (trim (db_todo x)) = lower C (trim t))
          (rows (snd (POST C s fresh (Some \<lparr>create_todo = Some (JStr t), create_isCompleted = c\<rparr>)))))
         = 1
     \<and> createTodo cl
          (Some (fst (POST C s fresh (Some \<lparr>create_todo = Some (JStr t), create_isCompleted = c\<rparr>))))
         = (False, cl\<lparr>error := Some ''Duplicate todo item''\<rparr>)
     \<and> todos (snd (createTodo cl
          (Some (fst (POST C s fresh (Some \<lparr>create_todo = Some (JStr t), create_isCompleted = c\<rparr>))))))
         = todos cl"
proof -
  assume ok: "store_ok C s" and r: "r \<in> set (rows s)"
    and same: "lower C (trim t) = lower C (trim (db_todo r))"
  from ok r have "trim (db_todo r) \<noteq> []"
    by (auto simp: store_ok_def filter_empty_conv)
  with same have t: "trim t \<noteq> []"
    by (metis lower_Nil)
  then have ne: "t \<noteq> []" by (auto simp: trim_def)
  from r same have "r \<in> set (filter (\<lambda>x. text_key C (db_todo x) = text_key C (trim t)) (rows s))"
    by (simp add: text_key_def trim_trim)
  then have clash: "filter (\<lambda>x. text_key C (db_todo x) = text_key C (trim t)) (rows s) \<noteq> []"
    by (metis empty_iff list.set(1))
  have post: "POST C s fresh (Some \<lparr>create_todo = Some (JStr t), create_isCompleted = c\<rparr>)
       = (json_response (ErrorJson ''Duplicate todo item'') 409, s)"
    using t ne clash by (simp add: POST_def insert_row_def)
  from ok have "distinct (map (\<lambda>x. lower C (trim (db_todo x))) (rows s))"
    by (simp add: store_ok_def text_key_def)
  from filter_key_unique [OF this r]
  have one: "length (filter (\<lambda>x. lower C (trim (db_todo x)) = lower C (trim t)) (rows s)) = 1"
    by (simp add: same)
  have client: "createTodo cl (Some (json_response (ErrorJson ''Duplicate todo item'') 409))
      = (False, cl\<lparr>error := Some ''Duplicate todo item''\<rparr>)"
    by (simp add: createTodo_def json_response_def)
  show ?thesis
    unfolding post using one client by simp
qed

theorem create_duplicate_conflict_witness:
  "POST (\<lambda>c. c)
       \<lparr>rows = [\<lparr>db_id = ''1'', db_todo = ascii ''Write spec'', is_completed = False, created_at = 3\<rparr>]\<rparr>
       (''2'', 4)
       (Some \<lparr>create_todo = Some (JStr (ascii ''  write SPEC '')), create_isCompleted = None\<rparr>)
     = (json_response (ErrorJson ''Duplicate todo item'') 409,
        \<lparr>rows = [\<lparr>db_id = ''1'', db_todo = ascii ''Write spec'', is_completed = False, created_at = 3\<rparr>]\<rparr>)"
proof -
  let ?r = "\<lparr>db_id = ''1'', db_todo = ascii ''Write spec'', is_completed = False, created_at = 3\<rparr>"
  let ?s = "\<lparr>rows = [?r]\<rparr>"
  have h1: "store_ok (\<lambda>c. c) ?s" by (simp add: store_ok_def eval_defs)
  have h2: "?r \<in> set (rows ?s)" by simp
  have h3: "lower (\<lambda>c. c) (trim (ascii ''  write SPEC ''))
      = lower (\<lambda>c. c) (trim (db_todo ?r))"
    by (simp add: eval_defs)
  show ?thesis
    using create_duplicate_conflict [OF h1 h2 h3] by simp
qed

text \<open>
  C2, at the input where the code departs from it. Two todos are created through the API,
  the first with the text \<open>a\b\<close> (a, backslash, b). Updating the second to that same text
  is a duplicate, but the check reads the backslash as an escape, looks for \<open>ab\<close>, finds
  no row, and the update goes on to the store, whose constraint refuses it: the answer is
  500, not 409. The store is unchanged.
\<close>

theorem update_duplicate_backslash:
  "POST C \<lparr>rows = []\<rparr> (''1'', 1)
       (Some \<lparr>create_todo = Some (JStr [97, BACKSLASH, 98]), create_isCompleted = None\<rparr>)
     = (json_response
          (TodoJson \<lparr>id' = ''1'', todo' = [97, BACKSLASH, 98],
                     isCompleted = False, createdAt = 1\<rparr>) 201,
        \<lparr>rows = [\<lparr>db_id = ''1'', db_todo = [97, BACKSLASH, 98],
                  is_completed = False, created_at = 1\<rparr>]\<rparr>)
   \<and> POST C \<lparr>rows = [\<lparr>db_id = ''1'', db_todo = [97, BACKSLASH, 98],
                     is_completed = False, created_at = 1\<rparr>]\<rparr> (''2'', 2)
       (Some \<lparr>create_todo = Some (JStr (ascii ''x'')), create_isCompleted = None\<rparr>)
     = (json_response
          (TodoJson \<lparr>id' = ''2'', todo' = ascii ''x'', isCompleted = False, createdAt = 2\<rparr>) 201,
        \<lparr>rows = [\<lparr>db_id = ''1'', db_todo = [97, BACKSLASH, 98],
                  is_completed = False, created_at = 1\<rparr>,
                 \<lparr>db_id = ''2'', db_todo = ascii ''x'', is_completed = False, created_at = 2\<rparr>]\<rparr>)
   \<and> select_ilike_neq C
        \<lparr>rows = [\<lparr>db_id = ''1'', db_todo = [97, BACKSLASH, 98],
                  is_completed = False, created_at = 1\<rparr>,
                 \<lparr>db_id = ''2'', db_todo = ascii ''x'', is_completed = False, created_at = 2\<rparr>]\<rparr>
        [97, BACKSLASH, 98] ''2'' = Inr []
   \<and> PUT C \<lparr>rows = [\<lparr>db_id = ''1'', db_todo = [97, BACKSLASH, 98],
                    is_completed = False, created_at = 1\<rparr>,
                   \<lparr>db_id = ''2'', db_todo = ascii ''x'', is_completed = False, created_at = 2\<rparr>]\<rparr>
        ''2'' (Some \<lparr>update_todo = Some (JStr [97, BACKSLASH, 98]),
                     update_isCompleted = None\<rparr>)
     = (json_response (ErrorJson ''Failed to update todo'') 500,
        \<lparr>rows = [\<lparr>db_id = ''1'', db_todo = [97, BACKSLASH, 98],
                  is_completed = False, created_at = 1\<rparr>,
                 \<lparr>db_id = ''2'', db_todo = ascii ''x'', is_completed = False, created_at = 2\<rparr>]\<rparr>)"
  by (simp add: eval_defs)

text \<open>
  C3. A create request whose text is missing, is not a string, or is empty or white space
  only after trimming is answered 400 "Todo text is required" and the store is unchanged.
  A create request with any other text that the store accepts is answered 201 and adds
  exactly one row, whose text is the trimmed input and whose completed flag is the given
  one, \<open>false\<close> when omitted. Conversely a 201 answer always comes with such a row.
\<close>

theorem create_validation:
  "((v = None \<or> (\<forall>t. v \<noteq> Some (JStr t)) \<or> (\<exists>t. v = Some (JStr t) \<and> trim t = [])) \<longrightarrow>
      POST C s fresh (Some \<lparr>create_todo = v, create_isCompleted = c\<rparr>)
        = (json_response (ErrorJson ''Todo text is required'') 400, s))
   \<and> (trim t \<noteq> [] \<and> filter (\<lambda>r. text_key C (db_todo r) = text_key C t) (rows s) = [] \<longrightarrow>
        POST C s fresh (Some \<lparr>create_todo = Some (JStr t), create_isCompleted = c\<rparr>)
          = (json_response
               (TodoJson \<lparr>id' = fst fresh, todo' = trim t,
                          isCompleted = (case c of None \<Rightarrow> False | Some b \<Rightarrow> b),
                          createdAt = snd fresh\<rparr>) 201,
             s\<lparr>rows := rows s @ [\<lparr>db_id = fst fresh, db_todo = trim t,
                                   is_completed = (case c of None \<Rightarrow> False | Some b \<Rightarrow> b),
                                   created_at = snd fresh\<rparr>]\<rparr>))
   \<and> (status (fst (POST C s fresh (Some \<lparr>create_todo = v, create_isCompleted = c\<rparr>))) = 201 \<longrightarrow>
        (\<exists>u. v = Some (JStr u) \<and>
           rows (snd (POST C s fresh (Some \<lparr>create_todo = v, create_isCompleted = c\<rparr>)))
             = rows s @ [\<lparr>db_id = fst fresh, db_todo = trim u,
                          is_completed = (case c of None \<Rightarrow> False | Some b \<Rightarrow> b),
                          created_at = snd fresh\<rparr>]))"
proof -
  have invalid: "POST C s fresh (Some \<lparr>create_todo = v, create_isCompleted = c\<rparr>)
        = (json_response (ErrorJson ''Todo text is required'') 400, s)"
    if "v = None \<or> (\<forall>t. v \<noteq> Some (JStr t)) \<or> (\<exists>t. v = Some (JStr t) \<and> trim t = [])"
  proof (cases v)
    case None
    then show ?thesis by (simp add: POST_def)
  next
    case (Some j)
    show ?thesis
    proof (cases j)
      case (JStr u)
      with Some that have "trim u = []" by auto
      with Some JStr show ?thesis by (simp add: POST_def)
    qed (use Some in \<open>simp_all add: POST_def\<close>)
  qed
  have valid: "POST C s fresh (Some \<lparr>create_todo = Some (JStr t), create_isCompleted = c\<rparr>)
          = (json_response
               (TodoJson \<lparr>id' = fst fresh, todo' = trim t,
                          isCompleted = (case c of None \<Rightarrow> False | Some b \<Rightarrow> b),
                          createdAt = snd fresh\<rparr>) 201,
             s\<lparr>rows := rows s @ [\<lparr>db_id = fst fresh, db_todo = trim t,
                                   is_completed = (case c of None \<Rightarrow> False | Some b \<Rightarrow> b),
                                   created_at = snd fresh\<rparr>]\<rparr>)"
    if t: "trim t \<noteq> []" and free: "filter (\<lambda>r. text_key C (db_todo r) = text_key C t) (rows s) = []"
  proof -
    have ne: "t \<noteq> []" using t by (auto simp: trim_def)
    have ins: "insert_row C s fresh (trim t) (case c of None \<Rightarrow> False | Some b \<Rightarrow> b)
        = Inr ([\<lparr>db_id = fst fresh, db_todo = trim t,
                  is_completed = (case c of None \<Rightarrow> False | Some b \<Rightarrow> b),
                  created_at = snd fresh\<rparr>],
               s\<lparr>rows := rows s @ [\<lparr>db_id = fst fresh, db_todo = trim t,
                                   is_completed = (case c of None \<Rightarrow> False | Some b \<Rightarrow> b),
                                   created_at = snd fresh\<rparr>]\<rparr>)"
      using free by (simp add: insert_row_def text_key_trim Let_def)
    show ?thesis
      using ne t by (simp add: POST_def ins transform_def)
  qed
  have created: "\<exists>u. v = Some (JStr u) \<and>
           rows (snd (POST C s fresh (Some \<lparr>create_todo = v, create_isCompleted = c\<rparr>)))
             = rows s @ [\<lparr>db_id = fst fresh, db_todo = trim u,
                          is_completed = (case c of None \<Rightarrow> False | Some b \<Rightarrow> b),
                          created_at = snd fresh\<rparr>]"
    if st: "status (fst (POST C s fresh (Some \<lparr>create_todo = v, create_isCompleted = c\<rparr>))) = 201"
  proof -
    have "\<not> (v = None \<or> (\<forall>t. v \<noteq> Some (JStr t)) \<or> (\<exists>t. v = Some (JStr t) \<and> trim t = []))"
    proof
      assume "v = None \<or> (\<forall>t. v \<noteq> Some (JStr t)) \<or> (\<exists>t. v = Some (JStr t) \<and> trim t = [])"
      from invalid [OF this] st show False by (simp add: json_response_def)
    qed
    then obtain u where u: "v = Some (JStr u)" "trim u \<noteq> []" by auto
    then have ne: "u \<noteq> []" by (auto simp: trim_def)
    show ?thesis
      using st u ne
      by (auto simp: POST_def insert_row_def Let_def json_response_def
               split: if_splits)
  qed
  from invalid valid created show ?thesis by blast
qed

theorem create_validation_witness:
  "POST (\<lambda>c. c) \<lparr>rows = []\<rparr> (''1'', 5)
        (Some \<lparr>create_todo = Some (JStr (ascii ''   '')), create_isCompleted = None\<rparr>)
     = (json_response (ErrorJson ''Todo text is required'') 400, \<lparr>rows = []\<rparr>)
   \<and> POST (\<lambda>c. c) \<lparr>rows = []\<rparr> (''1'', 5)
        (Some \<lparr>create_todo = Some (JStr [0xA0, 0x2003, 0xFEFF]), create_isCompleted = None\<rparr>)
     = (json_response (ErrorJson ''Todo text is required'') 400, \<lparr>rows = []\<rparr>)
   \<and> POST (\<lambda>c. c) \<lparr>rows = []\<rparr> (''1'', 5)
        (Some \<lparr>create_todo = Some (JStr (0xA0 # ascii '' Write spec '')), create_isCompleted = None\<rparr>)
     = (json_response
          (TodoJson \<lparr>id' = ''1'', todo' = ascii ''Write spec'', isCompleted = False, createdAt = 5\<rparr>) 201,
        \<lparr>rows = [\<lparr>db_id = ''1'', db_todo = ascii ''Write spec'', is_completed = False, created_at = 5\<rparr>]\<rparr>)"
proof -
  have b1: "trim (ascii ''   '') = []" by (simp add: eval_defs)
  have b2: "trim [0xA0, 0x2003, 0xFEFF] = []" by (simp add: eval_defs)
  have b3: "trim (0xA0 # ascii '' Write spec '') = ascii ''Write spec''" by (simp add: eval_defs)
  show ?thesis
    using
      create_validation [of "Some (JStr (ascii ''   ''))" "\<lambda>c. c" "\<lparr>rows = []\<rparr>" "(''1'', 5)" None
        "0xA0 # ascii '' Write spec ''"]
      create_validation [of "Some (JStr [0xA0, 0x2003, 0xFEFF])" "\<lambda>c. c" "\<lparr>rows = []\<rparr>" "(''1'', 5)" None
        "0xA0 # ascii '' Write spec ''"]
      b1 b2 b3
    by (simp add: ascii_def)
qed

text \<open>
  C4 (as amended). An update addressed to a non-empty id for which no row exists, whose
  body is readable and whose text, when provided, is a non-blank string for which the
  duplicate check finds no row, is answered 404 "Todo not found" and leaves the store
  unchanged; that answer differs from the conflict (409) and validation (400) answers.
\<close>

theorem update_unknown_id:
  "i \<noteq> [] \<Longrightarrow> filter (\<lambda>r. db_id r = i) (rows s) = [] \<Longrightarrow>
   (case update_todo b of
      None \<Rightarrow> True
    | Some v \<Rightarrow> (\<exists>t. v = JStr t \<and> trim t \<noteq> [] \<and> select_ilike_neq C s (trim t) i = Inr [])) \<Longrightarrow>
   PUT C s i (Some b) = (json_response (ErrorJson ''Todo not found'') 404, s)
   \<and> status (fst (PUT C s i (Some b))) \<noteq> 409 \<and> status (fst (PUT C s i (Some b))) \<noteq> 400"
proof -
  assume i: "i \<noteq> []" and unknown: "filter (\<lambda>r. db_id r = i) (rows s) = []"
    and valid: "case update_todo b of
      None \<Rightarrow> True
    | Some v \<Rightarrow> (\<exists>t. v = JStr t \<and> trim t \<noteq> [] \<and> select_ilike_neq C s (trim t) i = Inr [])"
  have nf: "respond_update s (update_rows C s i u) = (json_response (ErrorJson ''Todo not found'') 404, s)"
    for u
    by (simp add: update_rows_unknown_id [OF unknown] respond_update_def)
  have "PUT C s i (Some b) = (json_response (ErrorJson ''Todo not found'') 404, s)"
  proof (cases "update_todo b")
    case None
    with i show ?thesis by (simp add: PUT_def nf)
  next
    case (Some v)
    with valid obtain t where "v = JStr t" "trim t \<noteq> []" "select_ilike_neq C s (trim t) i = Inr []"
      by auto
    with Some i show ?thesis by (simp add: PUT_def nf)
  qed
  then show ?thesis by (simp add: json_response_def)
qed

theorem update_unknown_id_witness:
  "PUT (\<lambda>c. c)
        \<lparr>rows = [\<lparr>db_id = ''7'', db_todo = ascii ''Write spec'', is_completed = False, created_at = 3\<rparr>]\<rparr>
        ''42'' (Some \<lparr>update_todo = Some (JStr (ascii ''Buy milk'')), update_isCompleted = Some True\<rparr>)
     = (json_response (ErrorJson ''Todo not found'') 404,
        \<lparr>rows = [\<lparr>db_id = ''7'', db_todo = ascii ''Write spec'', is_completed = False, created_at = 3\<rparr>]\<rparr>)
   \<and> PUT (\<lambda>c. c)
        \<lparr>rows = [\<lparr>db_id = ''7'', db_todo = ascii ''Write spec'', is_completed = False, created_at = 3\<rparr>]\<rparr>
        ''42'' (Some \<lparr>update_todo = Some (JStr [122, 122, BACKSLASH]), update_isCompleted = None\<rparr>)
     = (json_response (ErrorJson ''Todo not found'') 404,
        \<lparr>rows = [\<lparr>db_id = ''7'', db_todo = ascii ''Write spec'', is_completed = False, created_at = 3\<rparr>]\<rparr>)"
proof -
  let ?s = "\<lparr>rows = [\<lparr>db_id = ''7'', db_todo = ascii ''Write spec'', is_completed = False, created_at = 3\<rparr>]\<rparr>"
  let ?b = "\<lparr>update_todo = Some (JStr (ascii ''Buy milk'')), update_isCompleted = Some True\<rparr>"
  let ?b' = "\<lparr>update_todo = Some (JStr [122, 122, BACKSLASH]), update_isCompleted = None\<rparr>"
  have h1: "''42'' \<noteq> []" by simp
  have h2: "filter (\<lambda>r. db_id r = ''42'') (rows ?s) = []" by simp
  have h3: "case update_todo ?b of
      None \<Rightarrow> True
    | Some v \<Rightarrow> (\<exists>t. v = JStr t \<and> trim t \<noteq> []
                    \<and> select_ilike_neq (\<lambda>c. c) ?s (trim t) ''42'' = Inr [])"
    by (simp add: eval_defs)
  have h3': "case update_todo ?b' of
      None \<Rightarrow> True
    | Some v \<Rightarrow> (\<exists>t. v = JStr t \<and> trim t \<noteq> []
                    \<and> select_ilike_neq (\<lambda>c. c) ?s (trim t) ''42'' = Inr [])"
    by (simp add: eval_defs)
  show ?thesis
    using update_unknown_id [OF h1 h2 h3] update_unknown_id [OF h1 h2 h3'] by simp
qed

theorem update_unknown_id_counterexample:
  "PUT (\<lambda>c. c) \<lparr>rows = []\<rparr> ''42''
        (Some \<lparr>update_todo = Some (JStr [0x20, 0xA0, 0x20]), update_isCompleted = None\<rparr>)
     = (json_response (ErrorJson ''Todo text cannot be empty'') 400, \<lparr>rows = []\<rparr>)
   \<and> PUT (\<lambda>c. c)
        \<lparr>rows = [\<lparr>db_id = ''7'', db_todo = ascii ''Buy milk'', is_completed = False, created_at = 3\<rparr>]\<rparr>
        ''42'' (Some \<lparr>update_todo = Some (JStr (ascii ''buy MILK'')), update_isCompleted = None\<rparr>)
     = (json_response (ErrorJson ''Duplicate todo item'') 409,
        \<lparr>rows = [\<lparr>db_id = ''7'', db_todo = ascii ''Buy milk'', is_completed = False, created_at = 3\<rparr>]\<rparr>)"
  by (simp add: eval_defs)

text \<open>
  C5 (as amended). For every non-empty id, delete answers 200 with \<open>{success: true}\<close>
  whether or not a row with that id exists, and removes exactly the rows with that id; a
  second delete of the same id gives the same answer and changes nothing. (The handler
  answers 400 to an empty id.)
\<close>

theorem delete_idempotent:
  "i \<noteq> [] \<Longrightarrow>
     DELETE s i = (json_response SuccessJson 200, s\<lparr>rows := filter (\<lambda>r. db_id r \<noteq> i) (rows s)\<rparr>)
     \<and> DELETE (snd (DELETE s i)) i = (json_response SuccessJson 200, snd (DELETE s i))
     \<and> (filter (\<lambda>r. db_id r = i) (rows s) = [] \<longrightarrow> DELETE s i = (json_response SuccessJson 200, s))"
proof -
  assume i: "i \<noteq> []"
  have del: "DELETE s' i = (json_response SuccessJson 200, s'\<lparr>rows := filter (\<lambda>r. db_id r \<noteq> i) (rows s')\<rparr>)"
    for s'
    using i by (simp add: DELETE_def delete_rows_def)
  have same: "filter (\<lambda>r. db_id r \<noteq> i) xs = xs" if "filter (\<lambda>r. db_id r = i) xs = []"
    for xs :: "SupabaseTodo list"
    using that by (induction xs) (auto split: if_splits)
  have "DELETE (snd (DELETE s i)) i = (json_response SuccessJson 200, snd (DELETE s i))"
    by (simp add: del)
  moreover have "DELETE s i = (json_response SuccessJson 200, s)"
    if "filter (\<lambda>r. db_id r = i) (rows s) = []"
    using that by (simp add: del same)
  ultimately show ?thesis using del by blast
qed

theorem delete_idempotent_witness:
  "DELETE \<lparr>rows = [\<lparr>db_id = ''7'', db_todo = ascii ''Write spec'', is_completed = True, created_at = 3\<rparr>]\<rparr> ''7''
     = (json_response SuccessJson 200, \<lparr>rows = []\<rparr>)
   \<and> DELETE \<lparr>rows = []\<rparr> ''7'' = (json_response SuccessJson 200, \<lparr>rows = []\<rparr>)"
proof -
  have h: "''7'' \<noteq> []" by simp
  show ?thesis
    using
      delete_idempotent [OF h,
        of "\<lparr>rows = [\<lparr>db_id = ''7'', db_todo = ascii ''Write spec'', is_completed = True, created_at = 3\<rparr>]\<rparr>"]
      delete_idempotent [OF h, of "\<lparr>rows = []\<rparr>"]
    by simp
qed

theorem delete_empty_id_counterexample:
  "DELETE \<lparr>rows = []\<rparr> [] = (json_response (ErrorJson ''Todo ID is required'') 400, \<lparr>rows = []\<rparr>)"
  by (simp add: DELETE_def)

text \<open>
  C6. For every store state the list operation answers 200 with all todos, ordered by
  \<open>createdAt\<close> descending, each one the translation of a stored row from the storage
  naming convention (\<open>is_completed\<close>, \<open>created_at\<close>) to the API's (\<open>isCompleted\<close>,
  \<open>createdAt\<close>); the store is left as it was. This holds however the store orders rows of
  equal \<open>created_at\<close>.
\<close>

theorem list_sorted_translated:
  "\<exists>l. GET tie s = (json_response (TodosJson l) 200, s)
       \<and> sorted_wrt (\<ge>) (map createdAt l)
       \<and> mset l = image_mset transform (mset (rows s))
       \<and> transform r = \<lparr>id' = db_id r, todo' = db_todo r,
                          isCompleted = is_completed r, createdAt = created_at r\<rparr>"
proof -
  let ?l = "map transform (rev (sort_key created_at (sort_key tie (rows s))))"
  have "GET tie s = (json_response (TodosJson ?l) 200, s)" by (rule GET_eq)
  moreover have "sorted_wrt (\<ge>) (map createdAt ?l)"
    unfolding createdAt_transform by (rule sorted_desc_order)
  moreover have "mset ?l = image_mset transform (mset (rows s))" by simp
  ultimately show ?thesis by (auto simp: transform_def)
qed

text \<open>
  C7. The update applies only the fields the body provides. An update that provides only
  completed leaves every row's id, text and createdAt as they were and, for a non-empty id,
  sets completed on exactly the rows with that id; it answers 200 with the changed record
  when such a row exists, and the list fetched afterwards holds the todos of the list
  fetched before with completed replaced on that id and nothing else changed, in the same
  order when no two rows share a creation time or when the store decides ties the same way
  in both fetches. An update that provides only text leaves every row's id, completed and
  createdAt as they were, and when it answers 200 the rows with that id carry the trimmed
  text.
\<close>

theorem partial_update_frame:
  "(PUT C s i (Some \<lparr>update_todo = None, update_isCompleted = Some b\<rparr>) = (resp, s') \<longrightarrow>
      map db_id (rows s') = map db_id (rows s)
      \<and> map db_todo (rows s') = map db_todo (rows s)
      \<and> map created_at (rows s') = map created_at (rows s)
      \<and> (i \<noteq> [] \<longrightarrow>
           rows s' = map (\<lambda>r. if db_id r = i then r\<lparr>is_completed := b\<rparr> else r) (rows s)
           \<and> (\<forall>r rs. filter (\<lambda>r. db_id r = i) (rows s) = r # rs \<longrightarrow>
                 resp = json_response (TodoJson ((transform r)\<lparr>isCompleted := b\<rparr>)) 200)
           \<and> (\<exists>l l'. fst (GET tie s) = json_response (TodosJson l) 200
                  \<and> fst (GET tie' s') = json_response (TodosJson l') 200
                  \<and> mset l' = image_mset (\<lambda>t. if id' t = i then t\<lparr>isCompleted := b\<rparr> else t) (mset l)
                  \<and> (distinct (map created_at (rows s))
                       \<or> (\<forall>r. tie' (if db_id r = i then r\<lparr>is_completed := b\<rparr> else r) = tie r)
                     \<longrightarrow> l' = map (\<lambda>t. if id' t = i then t\<lparr>isCompleted := b\<rparr> else t) l))))
   \<and> (PUT C s i (Some \<lparr>update_todo = Some v, update_isCompleted = None\<rparr>) = (resp, s') \<longrightarrow>
        map db_id (rows s') = map db_id (rows s)
        \<and> map is_completed (rows s') = map is_completed (rows s)
        \<and> map created_at (rows s') = map created_at (rows s)
        \<and> (status resp = 200 \<longrightarrow>
             (\<exists>t. v = JStr t \<and>
                rows s' = map (\<lambda>r. if db_id r = i then r\<lparr>db_todo := trim t\<rparr> else r) (rows s))))"
proof -
  let ?f = "\<lambda>r. if db_id r = i then r\<lparr>is_completed := b\<rparr> else r"
  let ?g = "\<lambda>t. if id' t = i then t\<lparr>isCompleted := b\<rparr> else t"
  have frame_f: "map db_id (map ?f xs) = map db_id xs \<and> map db_todo (map ?f xs) = map db_todo xs
      \<and> map created_at (map ?f xs) = map created_at xs" for xs
    by (induction xs) auto
  have completed: "map db_id (rows s') = map db_id (rows s)
      \<and> map db_todo (rows s') = map db_todo (rows s)
      \<and> map created_at (rows s') = map created_at (rows s)
      \<and> (i \<noteq> [] \<longrightarrow>
           rows s' = map ?f (rows s)
           \<and> (\<forall>r rs. filter (\<lambda>r. db_id r = i) (rows s) = r # rs \<longrightarrow>
                 resp = json_response (TodoJson ((transform r)\<lparr>isCompleted := b\<rparr>)) 200)
           \<and> (\<exists>l l'. fst (GET tie s) = json_response (TodosJson l) 200
                  \<and> fst (GET tie' s') = json_response (TodosJson l') 200
                  \<and> mset l' = image_mset ?g (mset l)
                  \<and> (distinct (map created_at (rows s)) \<or> (\<forall>r. tie' (?f r) = tie r)
                     \<longrightarrow> l' = map ?g l)))"
    if put: "PUT C s i (Some \<lparr>update_todo = None, update_isCompleted = Some b\<rparr>) = (resp, s')"
  proof (cases "i = []")
    case True
    with put have "s' = s" by (simp add: PUT_def)
    with True show ?thesis by simp
  next
    case i: False
    have s': "s' = s\<lparr>rows := map ?f (rows s)\<rparr>"
      using snd_PUT_completed_only [of C s i b] put i by simp
    then have rows': "rows s' = map ?f (rows s)" by simp
    have resp: "resp = json_response (TodoJson ((transform r)\<lparr>isCompleted := b\<rparr>)) 200"
      if "filter (\<lambda>r. db_id r = i) (rows s) = r # rs" for r rs
      using put that i
      by (simp add: PUT_completed_only respond_update_def transform_def)
    have key: "created_at (?f y) = created_at y" for y by simp
    have tr: "transform (?f y) = ?g (transform y)" for y by (simp add: transform_def)
    let ?l = "map transform (rev (sort_key created_at (sort_key tie (rows s))))"
    let ?l' = "map transform (rev (sort_key created_at (sort_key tie' (map ?f (rows s)))))"
    have g: "fst (GET tie s) = json_response (TodosJson ?l) 200"
      by (simp add: GET_eq)
    have g': "fst (GET tie' s') = json_response (TodosJson ?l') 200"
      by (simp add: GET_eq rows')
    have "mset ?l' = image_mset transform (image_mset ?f (mset (rows s)))"
      by simp
    also have "\<dots> = image_mset ?g (image_mset transform (mset (rows s)))"
      by (simp only: multiset.map_comp comp_def tr)
    also have "\<dots> = image_mset ?g (mset ?l)"
      by simp
    finally have ms: "mset ?l' = image_mset ?g (mset ?l)" .
    have same_order: "sort_key created_at (sort_key tie' (map ?f (rows s)))
        = map ?f (sort_key created_at (sort_key tie (rows s)))"
      if "distinct (map created_at (rows s)) \<or> (\<forall>r. tie' (?f r) = tie r)"
      using that
    proof
      assume d: "distinct (map created_at (rows s))"
      then have d': "distinct (map created_at (map ?f (rows s)))"
        by (simp only: frame_f)
      have "sort_key created_at (sort_key tie' (map ?f (rows s)))
          = sort_key created_at (map ?f (rows s))"
        by (rule sort_distinct_keys [OF d'])
      also have "\<dots> = map ?f (sort_key created_at (rows s))"
        by (rule sort_key_map_frame [of created_at ?f, OF key])
      also have "\<dots> = map ?f (sort_key created_at (sort_key tie (rows s)))"
        by (simp only: sort_distinct_keys [OF d])
      finally show ?thesis .
    next
      assume t: "\<forall>r. tie' (?f r) = tie r"
      then have t': "tie' (?f y) = tie y" for y by (rule spec)
      have "sort_key tie' (map ?f (rows s)) = map ?f (sort_key tie (rows s))"
        by (rule sort_key_map_frame2 [of tie' ?f tie, OF t'])
      then show ?thesis
        by (simp only: sort_key_map_frame [of created_at ?f, OF key])
    qed
    have ord: "?l' = map ?g ?l"
      if "distinct (map created_at (rows s)) \<or> (\<forall>r. tie' (?f r) = tie r)"
      by (simp only: same_order [OF that] rev_map map_map comp_def tr)
    from g g' ms ord
    have "\<exists>l l'. fst (GET tie s) = json_response (TodosJson l) 200
        \<and> fst (GET tie' s') = json_response (TodosJson l') 200
        \<and> mset l' = image_mset ?g (mset l)
        \<and> (distinct (map created_at (rows s)) \<or> (\<forall>r. tie' (?f r) = tie r) \<longrightarrow> l' = map ?g l)"
      by blast
    with rows' resp frame_f [of "rows s"] show ?thesis by simp
  qed
  have frame_t: "map db_id (map (\<lambda>r. if db_id r = i then r\<lparr>db_todo := u\<rparr> else r) xs) = map db_id xs
      \<and> map is_completed (map (\<lambda>r. if db_id r = i then r\<lparr>db_todo := u\<rparr> else r) xs)
          = map is_completed xs
      \<and> map created_at (map (\<lambda>r. if db_id r = i then r\<lparr>db_todo := u\<rparr> else r) xs)
          = map created_at xs" for xs u
    by (induction xs) auto
  have text_only: "map db_id (rows s') = map db_id (rows s)
        \<and> map is_completed (rows s') = map is_completed (rows s)
        \<and> map created_at (rows s') = map created_at (rows s)
        \<and> (status resp = 200 \<longrightarrow>
             (\<exists>t. v = JStr t \<and>
                rows s' = map (\<lambda>r. if db_id r = i then r\<lparr>db_todo := trim t\<rparr> else r) (rows s)))"
    if put: "PUT C s i (Some \<lparr>update_todo = Some v, update_isCompleted = None\<rparr>) = (resp, s')"
  proof -
    from snd_PUT_text_only [of C s i v] put
    have "s' = s \<or> (\<exists>t. s' = s\<lparr>rows := map (\<lambda>r. if db_id r = i then r\<lparr>db_todo := trim t\<rparr> else r) (rows s)\<rparr>)"
      by auto
    then have frame: "map db_id (rows s') = map db_id (rows s)
        \<and> map is_completed (rows s') = map is_completed (rows s)
        \<and> map created_at (rows s') = map created_at (rows s)"
      using frame_t by auto
    have "\<exists>t. v = JStr t \<and>
        rows s' = map (\<lambda>r. if db_id r = i then r\<lparr>db_todo := trim t\<rparr> else r) (rows s)"
      if "status resp = 200"
      using status_200_PUT_text_only [of C s i v] put that by auto
    with frame show ?thesis by blast
  qed
  from completed text_only show ?thesis by blast
qed

theorem partial_update_frame_witness:
  "PUT (\<lambda>c. c)
       \<lparr>rows = [\<lparr>db_id = ''7'', db_todo = ascii ''Write spec'', is_completed = False, created_at = 3\<rparr>,
               \<lparr>db_id = ''8'', db_todo = ascii ''Buy milk'', is_completed = False, created_at = 4\<rparr>]\<rparr>
       ''7'' (Some \<lparr>update_todo = None, update_isCompleted = Some True\<rparr>)
     = (json_response
          (TodoJson \<lparr>id' = ''7'', todo' = ascii ''Write spec'', isCompleted = True, createdAt = 3\<rparr>) 200,
        \<lparr>rows = [\<lparr>db_id = ''7'', db_todo = ascii ''Write spec'', is_completed = True, created_at = 3\<rparr>,
                 \<lparr>db_id = ''8'', db_todo = ascii ''Buy milk'', is_completed = False, created_at = 4\<rparr>]\<rparr>)
   \<and> map db_todo
        (rows \<lparr>rows = [\<lparr>db_id = ''7'', db_todo = ascii ''Write spec'', is_completed = True, created_at = 3\<rparr>,
                      \<lparr>db_id = ''8'', db_todo = ascii ''Buy milk'', is_completed = False, created_at = 4\<rparr>]\<rparr>)
       = [ascii ''Write spec'', ascii ''Buy milk'']
   \<and> fst (GET (\<lambda>r. 0)
        \<lparr>rows = [\<lparr>db_id = ''7'', db_todo = ascii ''Write spec'', is_completed = True, created_at = 3\<rparr>,
                 \<lparr>db_id = ''8'', db_todo = ascii ''Buy milk'', is_completed = False, created_at = 4\<rparr>]\<rparr>)
       = json_response (TodosJson
           [\<lparr>id' = ''8'', todo' = ascii ''Buy milk'', isCompleted = False, createdAt = 4\<rparr>,
            \<lparr>id' = ''7'', todo' = ascii ''Write spec'', isCompleted = True, createdAt = 3\<rparr>]) 200"
proof -
  let ?s = "\<lparr>rows = [\<lparr>db_id = ''7'', db_todo = ascii ''Write spec'', is_completed = False, created_at = 3\<rparr>,
               \<lparr>db_id = ''8'', db_todo = ascii ''Buy milk'', is_completed = False, created_at = 4\<rparr>]\<rparr>"
  let ?s' = "\<lparr>rows = [\<lparr>db_id = ''7'', db_todo = ascii ''Write spec'', is_completed = True, created_at = 3\<rparr>,
                 \<lparr>db_id = ''8'', db_todo = ascii ''Buy milk'', is_completed = False, created_at = 4\<rparr>]\<rparr>"
  let ?resp = "json_response
          (TodoJson \<lparr>id' = ''7'', todo' = ascii ''Write spec'', isCompleted = True, createdAt = 3\<rparr>) 200"
  have put: "PUT (\<lambda>c. c) ?s ''7'' (Some \<lparr>update_todo = None, update_isCompleted = Some True\<rparr>) = (?resp, ?s')"
    by (simp add: eval_defs)
  have get: "fst (GET (\<lambda>r. 0) ?s) = json_response (TodosJson
           [\<lparr>id' = ''8'', todo' = ascii ''Buy milk'', isCompleted = False, createdAt = 4\<rparr>,
            \<lparr>id' = ''7'', todo' = ascii ''Write spec'', isCompleted = False, createdAt = 3\<rparr>]) 200"
    by (simp add: GET_def select_ordered_def transform_def)
  show ?thesis
    using put get
      partial_update_frame [of "\<lambda>c. c" ?s "''7''" True ?resp ?s' "\<lambda>r. 0" "\<lambda>r. 0"]
    by (auto simp: json_response_def)
qed



text \<open>
  C9. An update whose body provides neither text nor completed is not rejected: with a
  non-empty id the handler passes the empty field set to the store and its answer is the
  one built from the store's result, which is never the validation error 400.
\<close>

theorem empty_update_not_rejected:
  "i \<noteq> [] \<Longrightarrow>
     PUT C s i (Some \<lparr>update_todo = None, update_isCompleted = None\<rparr>)
       = respond_update s (update_rows C s i \<lparr>set_todo = None, set_is_completed = None\<rparr>)
     \<and> status (fst (PUT C s i (Some \<lparr>update_todo = None, update_isCompleted = None\<rparr>))) \<noteq> 400"
proof -
  assume "i \<noteq> []"
  then have eq: "PUT C s i (Some \<lparr>update_todo = None, update_isCompleted = None\<rparr>)
       = respond_update s (update_rows C s i \<lparr>set_todo = None, set_is_completed = None\<rparr>)"
    by (simp add: PUT_def)
  show ?thesis
    unfolding eq using respond_update_not_400 by simp
qed

theorem empty_update_not_rejected_witness:
  "PUT (\<lambda>c. c)
       \<lparr>rows = [\<lparr>db_id = ''7'', db_todo = ascii ''Write spec'', is_completed = False, created_at = 3\<rparr>]\<rparr>
       ''7'' (Some \<lparr>update_todo = None, update_isCompleted = None\<rparr>)
     = respond_update
         \<lparr>rows = [\<lparr>db_id = ''7'', db_todo = ascii ''Write spec'', is_completed = False, created_at = 3\<rparr>]\<rparr>
         (update_rows (\<lambda>c. c)
            \<lparr>rows = [\<lparr>db_id = ''7'', db_todo = ascii ''Write spec'', is_completed = False, created_at = 3\<rparr>]\<rparr>
            ''7'' \<lparr>set_todo = None, set_is_completed = None\<rparr>)
   \<and> status (fst (PUT (\<lambda>c. c)
       \<lparr>rows = [\<lparr>db_id = ''7'', db_todo = ascii ''Write spec'', is_completed = False, created_at = 3\<rparr>]\<rparr>
       ''7'' (Some \<lparr>update_todo = None, update_isCompleted = None\<rparr>))) \<noteq> 400"
proof -
  have h: "''7'' \<noteq> []" by simp
  show ?thesis
    by (rule empty_update_not_rejected [OF h])
qed

text \<open>
  C10 (as amended). The update's duplicate check is a pattern match, not an equality test.
  For a non-empty id and a non-blank text, the update answers 409 exactly when the store's
  \<open>ILIKE\<close> raises on no row and some other row's text matches the trimmed text as an
  \<open>ILIKE\<close> pattern. Updating to a text that trims to "%" is a conflict as soon as any
  other row exists. And for every text whose trimmed form contains \<open>%\<close> or \<open>_\<close> and
  does not end in a backslash that is not itself escaped, there is a row text, not equal to
  it under case folding, whose presence in another row makes the update a conflict. A text
  whose trimmed form does end in such a backslash is never answered 409.
\<close>

theorem update_check_is_pattern_match:
  "(i \<noteq> [] \<and> trim t \<noteq> [] \<longrightarrow>
      (status (fst (PUT C s i (Some \<lparr>update_todo = Some (JStr t), update_isCompleted = c\<rparr>))) = 409)
        = ((\<forall>r\<in>set (rows s). ilike C (db_todo r) (trim t) \<noteq> LIKE_ERROR)
           \<and> (\<exists>r\<in>set (rows s). db_id r \<noteq> i \<and> ilike C (db_todo r) (trim t) = LIKE_TRUE)))
   \<and> (i \<noteq> [] \<and> trim t = [PERCENT] \<and> filter (\<lambda>r. db_id r \<noteq> i) (rows s) \<noteq> [] \<longrightarrow>
        PUT C s i (Some \<lparr>update_todo = Some (JStr t), update_isCompleted = c\<rparr>)
          = (json_response (ErrorJson ''Duplicate todo item'') 409, s))
   \<and> (i \<noteq> [] \<and> (PERCENT \<in> set (trim t) \<or> UNDERSCORE \<in> set (trim t))
        \<and> \<not> dangling_escape (trim t) \<longrightarrow>
        (\<exists>x. lower C x \<noteq> lower C (trim t) \<and> ilike C x (trim t) = LIKE_TRUE \<and>
           (\<forall>s' r. r \<in> set (rows s') \<and> db_id r \<noteq> i \<and> db_todo r = x \<longrightarrow>
              PUT C s' i (Some \<lparr>update_todo = Some (JStr t), update_isCompleted = c\<rparr>)
                = (json_response (ErrorJson ''Duplicate todo item'') 409, s'))))
   \<and> (dangling_escape (trim t) \<longrightarrow>
        status (fst (PUT C s i (Some \<lparr>update_todo = Some (JStr t), update_isCompleted = c\<rparr>))) \<noteq> 409)"
proof -
  let ?put = "PUT C s i (Some \<lparr>update_todo = Some (JStr t), update_isCompleted = c\<rparr>)"
  have exact: "(status (fst ?put) = 409)
        = ((\<forall>r\<in>set (rows s). ilike C (db_todo r) (trim t) \<noteq> LIKE_ERROR)
           \<and> (\<exists>r\<in>set (rows s). db_id r \<noteq> i \<and> ilike C (db_todo r) (trim t) = LIKE_TRUE))"
    if i: "i \<noteq> []" and t: "trim t \<noteq> []"
  proof (cases "filter (\<lambda>r. ilike C (db_todo r) (trim t) = LIKE_ERROR) (rows s) = []")
    case False
    then have sel: "select_ilike_neq C s (trim t) i = Inl (PostgrestError ''22025'')"
      by (simp add: select_ilike_neq_def)
    from False have "\<not> (\<forall>r\<in>set (rows s). ilike C (db_todo r) (trim t) \<noteq> LIKE_ERROR)"
      by (auto simp: filter_empty_conv)
    moreover have "status (fst ?put) \<noteq> 409"
      by (rule PUT_check_not_found [OF i t]) (simp add: sel)
    ultimately show ?thesis by simp
  next
    case True
    then have ne: "\<forall>r\<in>set (rows s). ilike C (db_todo r) (trim t) \<noteq> LIKE_ERROR"
      by (auto simp: filter_empty_conv)
    from True have sel: "select_ilike_neq C s (trim t) i
        = Inr (map db_todo
            (filter (\<lambda>r. ilike C (db_todo r) (trim t) = LIKE_TRUE \<and> db_id r \<noteq> i) (rows s)))"
      by (simp add: select_ilike_neq_def)
    show ?thesis
    proof (cases "filter (\<lambda>r. ilike C (db_todo r) (trim t) = LIKE_TRUE \<and> db_id r \<noteq> i) (rows s)")
      case Nil
      then have "\<not> (\<exists>r\<in>set (rows s). db_id r \<noteq> i \<and> ilike C (db_todo r) (trim t) = LIKE_TRUE)"
        by (auto simp: filter_empty_conv)
      moreover have "status (fst ?put) \<noteq> 409"
        by (rule PUT_check_not_found [OF i t]) (simp add: sel Nil)
      ultimately show ?thesis by simp
    next
      case (Cons r rs)
      then have "r \<in> set (filter (\<lambda>r. ilike C (db_todo r) (trim t) = LIKE_TRUE \<and> db_id r \<noteq> i) (rows s))"
        by simp
      then have r: "r \<in> set (rows s)" "db_id r \<noteq> i" "ilike C (db_todo r) (trim t) = LIKE_TRUE"
        by simp_all
      have "?put = (json_response (ErrorJson ''Duplicate todo item'') 409, s)"
        by (rule PUT_check_found [OF i t]) (simp add: sel Cons)
      then have "status (fst ?put) = 409" by (simp add: json_response_def)
      with ne r show ?thesis by auto
    qed
  qed
  have percent: "?put = (json_response (ErrorJson ''Duplicate todo item'') 409, s)"
    if i: "i \<noteq> []" and tr: "trim t = [PERCENT]" and other: "filter (\<lambda>r. db_id r \<noteq> i) (rows s) \<noteq> []"
  proof -
    have pat: "lower C (star_alias [PERCENT]) = [PERCENT]"
      by (simp add: lower_def star_alias_def lower_unit_def fold_ascii_def)
    have all: "ilike C x [PERCENT] = LIKE_TRUE" for x
      by (simp only: ilike_def pat MatchText_percent)
    from other obtain r where r: "r \<in> set (rows s)" "db_id r \<noteq> i"
      by (auto simp: filter_empty_conv)
    show ?thesis
      by (rule PUT_conflict [OF i _ _ r]) (simp_all add: tr all)
  qed
  have wild: "\<exists>x. lower C x \<noteq> lower C (trim t) \<and> ilike C x (trim t) = LIKE_TRUE \<and>
           (\<forall>s' r. r \<in> set (rows s') \<and> db_id r \<noteq> i \<and> db_todo r = x \<longrightarrow>
              PUT C s' i (Some \<lparr>update_todo = Some (JStr t), update_isCompleted = c\<rparr>)
                = (json_response (ErrorJson ''Duplicate todo item'') 409, s'))"
    if i: "i \<noteq> []" and w: "PERCENT \<in> set (trim t) \<or> UNDERSCORE \<in> set (trim t)"
      and nd: "\<not> dangling_escape (trim t)"
  proof -
    let ?x = "like_sample (star_alias (trim t))"
    from w have t: "trim t \<noteq> []" by auto
    have d: "lower C ?x \<noteq> lower C (trim t)" using w by (rule sample_differs)
    have m: "ilike C ?x (trim t) = LIKE_TRUE" using nd by (rule ilike_sample)
    have "PUT C s' i (Some \<lparr>update_todo = Some (JStr t), update_isCompleted = c\<rparr>)
                = (json_response (ErrorJson ''Duplicate todo item'') 409, s')"
      if r: "r \<in> set (rows s')" "db_id r \<noteq> i" "db_todo r = ?x" for s' r
    proof -
      from m have "ilike C (db_todo r) (trim t) = LIKE_TRUE" unfolding r(3) .
      with r show ?thesis by (intro PUT_conflict [OF i t nd])
    qed
    with d m show ?thesis by blast
  qed
  have never: "status (fst ?put) \<noteq> 409" if "dangling_escape (trim t)"
    using that by (rule PUT_dangling)
  from exact percent wild never show ?thesis by blast
qed

theorem update_check_is_pattern_match_witness:
  "PUT (\<lambda>c. c)
       \<lparr>rows = [\<lparr>db_id = ''1'', db_todo = ascii ''Buy milk'', is_completed = False, created_at = 3\<rparr>,
               \<lparr>db_id = ''2'', db_todo = ascii ''Write spec'', is_completed = False, created_at = 4\<rparr>]\<rparr>
       ''2'' (Some \<lparr>update_todo = Some (JStr [0xA0, PERCENT]), update_isCompleted = None\<rparr>)
     = (json_response (ErrorJson ''Duplicate todo item'') 409,
        \<lparr>rows = [\<lparr>db_id = ''1'', db_todo = ascii ''Buy milk'', is_completed = False, created_at = 3\<rparr>,
                 \<lparr>db_id = ''2'', db_todo = ascii ''Write spec'', is_completed = False, created_at = 4\<rparr>]\<rparr>)
   \<and> lower (\<lambda>c. c) (ascii ''Buy milk'') \<noteq> lower (\<lambda>c. c) [PERCENT]
   \<and> ilike (\<lambda>c. c) (ascii ''Buy milk'') [PERCENT] = LIKE_TRUE"
proof -
  let ?s = "\<lparr>rows = [\<lparr>db_id = ''1'', db_todo = ascii ''Buy milk'', is_completed = False, created_at = 3\<rparr>,
               \<lparr>db_id = ''2'', db_todo = ascii ''Write spec'', is_completed = False, created_at = 4\<rparr>]\<rparr>"
  have h: "''2'' \<noteq> [] \<and> trim [0xA0, PERCENT] = [PERCENT] \<and> filter (\<lambda>r. db_id r \<noteq> ''2'') (rows ?s) \<noteq> []"
    by (simp add: trim_def isWhiteSpace_def)
  have ne: "lower (\<lambda>c. c) (ascii ''Buy milk'') \<noteq> lower (\<lambda>c. c) [PERCENT]"
    by (simp add: lower_def ascii_def)
  have m: "ilike (\<lambda>c. c) (ascii ''Buy milk'') [PERCENT] = LIKE_TRUE"
    by (simp add: eval_defs)
  show ?thesis
    using h ne m update_check_is_pattern_match [of "''2''" "[0xA0, PERCENT]" "\<lambda>c. c" ?s None]
    by simp
qed

theorem update_check_is_pattern_match_counterexample:
  "(\<forall>C x. ilike C x [PERCENT, BACKSLASH] \<noteq> LIKE_TRUE)
   \<and> (\<forall>C s i c.
        status (fst (PUT C s i
          (Some \<lparr>update_todo = Some (JStr [PERCENT, BACKSLASH]), update_isCompleted = c\<rparr>))) \<noteq> 409)
   \<and> PUT (\<lambda>c. c)
       \<lparr>rows = [\<lparr>db_id = ''1'', db_todo = ascii ''Buy milk'', is_completed = False, created_at = 3\<rparr>,
               \<lparr>db_id = ''2'', db_todo = ascii ''Write spec'', is_completed = False, created_at = 4\<rparr>]\<rparr>
       ''2'' (Some \<lparr>update_todo = Some (JStr [PERCENT, BACKSLASH]), update_isCompleted = None\<rparr>)
     = (json_response (ErrorJson ''Failed to update todo'') 500,
        \<lparr>rows = [\<lparr>db_id = ''1'', db_todo = ascii ''Buy milk'', is_completed = False, created_at = 3\<rparr>,
                 \<lparr>db_id = ''2'', db_todo = ascii ''Write spec'', is_completed = False, created_at = 4\<rparr>]\<rparr>)
   \<and> PUT (\<lambda>c. c)
       \<lparr>rows = [\<lparr>db_id = ''1'', db_todo = ascii ''Buy milk'', is_completed = False, created_at = 3\<rparr>,
               \<lparr>db_id = ''2'', db_todo = ascii ''Write spec'', is_completed = False, created_at = 4\<rparr>]\<rparr>
       [] (Some \<lparr>update_todo = Some (JStr [PERCENT]), update_isCompleted = None\<rparr>)
     = (json_response (ErrorJson ''Todo ID is required'') 400,
        \<lparr>rows = [\<lparr>db_id = ''1'', db_todo = ascii ''Buy milk'', is_completed = False, created_at = 3\<rparr>,
                 \<lparr>db_id = ''2'', db_todo = ascii ''Write spec'', is_completed = False, created_at = 4\<rparr>]\<rparr>)"
proof -
  have tr: "trim [PERCENT, BACKSLASH] = [PERCENT, BACKSLASH]"
    by (simp add: trim_def isWhiteSpace_def)
  have pat: "lower C (star_alias [PERCENT, BACKSLASH]) = [PERCENT, BACKSLASH]" for C
    by (simp add: lower_def star_alias_def lower_unit_def fold_ascii_def)
  have never: "ilike C x [PERCENT, BACKSLASH] \<noteq> LIKE_TRUE" for C x
    by (simp only: ilike_def pat MatchText_percent_backslash not_False_eq_True)
  have "status (fst (PUT C s i
          (Some \<lparr>update_todo = Some (JStr [PERCENT, BACKSLASH]), update_isCompleted = c\<rparr>))) \<noteq> 409"
    for C s i c
  proof (cases "i = []")
    case True
    then show ?thesis by (simp add: PUT_def json_response_def)
  next
    case i: False
    have t: "trim [PERCENT, BACKSLASH] \<noteq> []" by (simp add: tr)
    have "select_ilike_neq C s (trim [PERCENT, BACKSLASH]) i = Inr []
        \<or> select_ilike_neq C s (trim [PERCENT, BACKSLASH]) i = Inl (PostgrestError ''22025'')"
      by (simp add: select_ilike_neq_def tr never)
    then show ?thesis by (rule PUT_check_not_found [OF i t])
  qed
  moreover have "PUT (\<lambda>c. c)
       \<lparr>rows = [\<lparr>db_id = ''1'', db_todo = ascii ''Buy milk'', is_completed = False, created_at = 3\<rparr>,
               \<lparr>db_id = ''2'', db_todo = ascii ''Write spec'', is_completed = False, created_at = 4\<rparr>]\<rparr>
       ''2'' (Some \<lparr>update_todo = Some (JStr [PERCENT, BACKSLASH]), update_isCompleted = None\<rparr>)
     = (json_response (ErrorJson ''Failed to update todo'') 500,
        \<lparr>rows = [\<lparr>db_id = ''1'', db_todo = ascii ''Buy milk'', is_completed = False, created_at = 3\<rparr>,
                 \<lparr>db_id = ''2'', db_todo = ascii ''Write spec'', is_completed = False, created_at = 4\<rparr>]\<rparr>)"
    by (simp add: eval_defs)
  moreover have "PUT (\<lambda>c. c)
       \<lparr>rows = [\<lparr>db_id = ''1'', db_todo = ascii ''Buy milk'', is_completed = False, created_at = 3\<rparr>,
               \<lparr>db_id = ''2'', db_todo = ascii ''Write spec'', is_completed = False, created_at = 4\<rparr>]\<rparr>
       [] (Some \<lparr>update_todo = Some (JStr [PERCENT]), update_isCompleted = None\<rparr>)
     = (json_response (ErrorJson ''Todo ID is required'') 400,
        \<lparr>rows = [\<lparr>db_id = ''1'', db_todo = ascii ''Buy milk'', is_completed = False, created_at = 3\<rparr>,
                 \<lparr>db_id = ''2'', db_todo = ascii ''Write spec'', is_completed = False, created_at = 4\<rparr>]\<rparr>)"
    by (simp add: PUT_def)
  ultimately show ?thesis using never by blast
qed

end
